theory Spec2Isabelle
  imports Main
begin

section \<open>Values, operation surfaces and action records\<close>

text \<open>
  The module \<^verbatim>\<open>index.js\<close> works on untyped JavaScript values. The values that the
  code inspects are modelled by one datatype: the primitives, functions, and objects as
  lists of own properties in insertion order (the order \<^verbatim>\<open>Object.keys\<close> reports).
  A function is known by an identifier only: what a handler, a builder or a callback
  computes is supplied from outside the module. The list of an object holds the own
  enumerable properties, which are what \<^verbatim>\<open>traverse\<close> walks. A read \<^verbatim>\<open>node[key]\<close> finds more
  than these: properties inherited through the prototype chain, and the properties of
  functions and of primitive values. What it finds there depends on the realm the code
  runs in, so it is given from outside as well (\<open>realm\<close> below).

  The type parameter is the kind of function found at the leaves: plain identifiers in
  \<^verbatim>\<open>saw.handlers\<close> and in call arguments, and \<open>callee\<close> in the surface returned by
  \<^verbatim>\<open>saw.chain\<close>, where a leaf is either a function left in place or one of the closures
  installed by \<^verbatim>\<open>this.update\<close>, which remembers its path and the chain it pushes to
  (the closed-over \<^verbatim>\<open>saw\<close>, named by its address in the store).
\<close>

type_synonym path = "string list"

type_synonym fid = nat

datatype 'f jsval =
    Undefined
  | Null
  | Bool bool
  | Num int
  | Str string
  | Fun 'f
  | Obj "(string \<times> 'f jsval) list"

datatype callee = Orig fid | Proxy nat path

datatype error = TypeError | Error string

text \<open>
  What a read of a key on a value yields when the key is not one of the listed own
  properties of an object: a value (\<^verbatim>\<open>undefined\<close> when nothing is there), or the error
  that the read throws.
\<close>

type_synonym 'f realm = "'f jsval \<Rightarrow> string \<Rightarrow> error + 'f jsval"

text \<open>
  An entry of \<^verbatim>\<open>saw.actions\<close>: the record \<^verbatim>\<open>{path, args}\<close> pushed by a proxied operation, or
  the record \<^verbatim>\<open>{path, step, cb, trap: true}\<close> pushed by \<^verbatim>\<open>saw.trap\<close>.
\<close>

datatype action =
    Call (path: path) (args: "fid jsval list")
  | Trap (path: path) (tstep: int) (cb: "fid jsval")

text \<open>
  The builder passed to \<^verbatim>\<open>chainsaw\<close> is called with a fresh object as \<^verbatim>\<open>this\<close>; the module
  uses the properties it attaches there and the value it returns. \<open>beyond\<close> is the
  realm that the builder and its chains run in: what a read finds on a value besides its
  listed properties.
\<close>

record builder =
  attaches :: "(string \<times> fid jsval) list"
  returns :: "fid jsval"
  beyond :: "fid realm"

text \<open>
  The listeners of the \<^verbatim>\<open>end\<close> event that the module itself registers are the \<^verbatim>\<open>next\<close>
  closures of other chains (line 137); a chain is named by its address in the store.
\<close>

datatype listener = NextOf nat

text \<open>
  The object returned by \<^verbatim>\<open>chainsaw.saw\<close>. The field \<open>step\<close> is \<open>None\<close> while \<^verbatim>\<open>saw.step\<close>
  is undefined. \<^verbatim>\<open>upgradeChainsaw\<close> is the only code that assigns \<^verbatim>\<open>saw.step\<close>, and it
  replaces \<^verbatim>\<open>pop\<close>, \<^verbatim>\<open>trap\<close>, \<^verbatim>\<open>down\<close> and \<^verbatim>\<open>jump\<close> in the same call, so the same field
  tells which versions of these four methods are installed.
\<close>

record saw =
  builder :: builder
  handlers :: "fid jsval"
  actions :: "action list"
  step :: "int option"
  on_end :: "listener list"

subsection \<open>Property access\<close>

text \<open>
  The read \<^verbatim>\<open>node[key]\<close> as JavaScript does it (line 100, and the member accesses of a
  fluent call): it throws on \<^verbatim>\<open>undefined\<close> and \<^verbatim>\<open>null\<close>, finds a listed own property of an
  object first, and leaves everything else to the realm.
\<close>

fun read :: "'f realm \<Rightarrow> 'f jsval \<Rightarrow> string \<Rightarrow> error + 'f jsval" where
  "read rt Undefined k = Inl TypeError"
| "read rt Null k = Inl TypeError"
| "read rt (Obj kvs) k = (case map_of kvs k of Some v \<Rightarrow> Inr v | None \<Rightarrow> rt (Obj kvs) k)"
| "read rt v k = rt v k"

text \<open>\<^verbatim>\<open>path.forEach(function (key) { node = node[key] })\<close>, line 100.\<close>

fun follow :: "'f realm \<Rightarrow> 'f jsval \<Rightarrow> path \<Rightarrow> error + 'f jsval" where
  "follow rt node [] = Inr node"
| "follow rt node (key # keys) =
     (case read rt node key of Inl e \<Rightarrow> Inl e | Inr child \<Rightarrow> follow rt child keys)"

section \<open>The interceptor: \<^verbatim>\<open>saw.chain\<close>\<close>

text \<open>
  Modelled from the spec: the walk done by \<^verbatim>\<open>traverse(saw.handlers).map(f)\<close>, a package
  that is not among the sources. It copies the tree and calls \<^verbatim>\<open>f\<close> at every node,
  parents first, with \<^verbatim>\<open>this.path\<close> the keys from the root; the children of objects are
  visited in turn, and a node that \<^verbatim>\<open>this.update\<close> has replaced by a function has none.
  The callback \<^verbatim>\<open>f\<close> is lines 57-73: it returns the root as it is and replaces every
  other function node by a closure over its path; nodes that are not functions are
  kept.
\<close>

fun walk :: "nat \<Rightarrow> path \<Rightarrow> fid jsval \<Rightarrow> callee jsval" where
  "walk i ps (Fun f) = (if ps = [] then Fun (Orig f) else Fun (Proxy i ps))"
| "walk i ps (Obj kvs) = Obj (map (\<lambda>(k, v). (k, walk i (ps @ [k]) v)) kvs)"
| "walk i ps Undefined = Undefined"
| "walk i ps Null = Null"
| "walk i ps (Bool b) = Bool b"
| "walk i ps (Num n) = Num n"
| "walk i ps (Str s) = Str s"

section \<open>The execution driver: \<^verbatim>\<open>saw.pop\<close> and \<^verbatim>\<open>saw.next\<close>\<close>

text \<open>
  What a method of the controller does besides updating the chain: every method of the
  module ends in at most one call that leaves it (an event, a handler, a trap callback)
  or in a throw, and does nothing after that call returns.
\<close>

datatype effect =
    Nothing
  | EmitEnd
  | Invoke fid "fid jsval" "fid jsval list"
  | Delegate fid "fid jsval" "fid jsval" "fid jsval list"
  | Fire fid
  | Throw error

text \<open>\<^verbatim>\<open>xs[i]\<close> for an integer index: \<^verbatim>\<open>undefined\<close> outside the array.\<close>

definition at :: "'a list \<Rightarrow> int \<Rightarrow> 'a option" where
  "at xs i = (if 0 \<le> i \<and> i < int (length xs) then Some (xs ! nat i) else None)"

text \<open>
  \<^verbatim>\<open>saw.pop\<close>: \<^verbatim>\<open>saw.actions.shift()\<close> as long as \<^verbatim>\<open>chainsaw.saw\<close>'s version is installed
  (line 87), \<^verbatim>\<open>saw.actions[saw.step++]\<close> after \<^verbatim>\<open>upgradeChainsaw\<close> (line 160).
\<close>

definition saw_pop :: "saw \<Rightarrow> action option \<times> saw" where
  "saw_pop s =
     (case step s of
        None \<Rightarrow>
          (case actions s of
             [] \<Rightarrow> (None, s)
           | a # rest \<Rightarrow> (Some a, s\<lparr>actions := rest\<rparr>))
      | Some i \<Rightarrow> (at (actions s) i, s\<lparr>step := Some (i + 1)\<rparr>))"

text \<open>
  \<^verbatim>\<open>node.apply(saw.handlers, action.args)\<close>, line 101. On a function, \<^verbatim>\<open>apply\<close> is the method
  of \<^verbatim>\<open>Function.prototype\<close>: the function is called with the handlers as \<^verbatim>\<open>this\<close> and with
  the recorded arguments (\<open>Invoke\<close>). On any other value \<^verbatim>\<open>node.apply\<close> is a read like
  every other: if it finds a function, that function is called as a method of the node,
  with the handlers and the array of arguments as its two arguments (\<open>Delegate\<close>); if
  it finds something else, the call throws a TypeError.
\<close>

fun invoke :: "fid realm \<Rightarrow> fid jsval \<Rightarrow> fid jsval \<Rightarrow> fid jsval list \<Rightarrow> effect" where
  "invoke rt (Fun f) this as = Invoke f this as"
| "invoke rt v this as =
     (case read rt v ''apply'' of
        Inl e \<Rightarrow> Throw e
      | Inr (Fun g) \<Rightarrow> Delegate g v this as
      | Inr u \<Rightarrow> Throw TypeError)"

text \<open>Lines 98-102: what \<^verbatim>\<open>saw.next\<close> does with a record it has popped.\<close>

fun perform :: "fid realm \<Rightarrow> fid jsval \<Rightarrow> action \<Rightarrow> effect" where
  "perform rt h (Trap ps st c) = Nothing"
| "perform rt h (Call ps as) =
     (case follow rt h ps of Inl e \<Rightarrow> Throw e | Inr node \<Rightarrow> invoke rt node h as)"

definition saw_next :: "saw \<Rightarrow> effect \<times> saw" where
  "saw_next s =
     (case saw_pop s of
        (None, s') \<Rightarrow> (EmitEnd, s')
      | (Some action, s') \<Rightarrow> (perform (beyond (builder s')) (handlers s') action, s'))"

text \<open>\<open>n\<close> calls of \<^verbatim>\<open>saw.next\<close> one after the other, with what each of them did. (A handler
  brings about the next call itself, by calling \<^verbatim>\<open>saw.next\<close> when it is done.)\<close>

fun run :: "nat \<Rightarrow> saw \<Rightarrow> effect list \<times> saw" where
  "run 0 s = ([], s)"
| "run (Suc n) s =
     (case saw_next s of (e, s') \<Rightarrow> (case run n s' of (es, s'') \<Rightarrow> (e # es, s'')))"

section \<open>Recording and the replay controller\<close>

definition record_first :: string where
  "record_first =
     ''To use the trap, down and jump features, please call record() first to start recording actions.''"

definition upgradeChainsaw :: "saw \<Rightarrow> saw" where
  "upgradeChainsaw s = s\<lparr>step := Some 0\<rparr>"

definition saw_record :: "saw \<Rightarrow> saw" where
  "saw_record s = upgradeChainsaw s"

text \<open>The \<^verbatim>\<open>name\<close> argument of \<^verbatim>\<open>trap\<close> and \<^verbatim>\<open>down\<close>: one segment or an array of segments.\<close>

datatype name = Single string | Segments "string list"

fun as_path :: "name \<Rightarrow> path" where
  "as_path (Single k) = [k]"
| "as_path (Segments ks) = ks"

text \<open>\<^verbatim>\<open>ps.join('/')\<close>.\<close>

fun join :: "string list \<Rightarrow> string" where
  "join [] = []"
| "join [k] = k"
| "join (k # ks) = k @ ''/'' @ join ks"

text \<open>\<^verbatim>\<open>xs.slice(start)\<close>: a negative start counts from the end of the array.\<close>

definition slice :: "'a list \<Rightarrow> int \<Rightarrow> 'a list" where
  "slice xs start =
     (let n = int (length xs);
          k = (if start < 0 then max (n + start) 0 else min start n)
      in drop (nat k) xs)"

text \<open>\<^verbatim>\<open>xs.indexOf(x)\<close>: the first position of \<open>x\<close>, or \<open>-1\<close>.\<close>

fun indexOf :: "'a list \<Rightarrow> 'a \<Rightarrow> int" where
  "indexOf [] x = - 1"
| "indexOf (y # ys) x =
     (if y = x then 0 else (let i = indexOf ys x in if i < 0 then - 1 else i + 1))"

text \<open>\<^verbatim>\<open>act.cb()\<close>.\<close>

fun fire :: "fid jsval \<Rightarrow> effect" where
  "fire (Fun f) = Fire f"
| "fire v = Throw TypeError"

text \<open>
  The three replay methods. Before \<^verbatim>\<open>upgradeChainsaw\<close> each of them is the stub of lines
  145-150; after it, the functions of lines 163-195.
\<close>

definition saw_trap :: "name \<Rightarrow> fid jsval \<Rightarrow> saw \<Rightarrow> effect \<times> saw" where
  "saw_trap nm c s =
     (case step s of
        None \<Rightarrow> (Throw (Error record_first), s)
      | Some i \<Rightarrow> (Nothing, s\<lparr>actions := actions s @ [Trap (as_path nm) i c]\<rparr>))"

text \<open>The callback given to \<^verbatim>\<open>map\<close> in \<^verbatim>\<open>saw.down\<close>, lines 175-178.\<close>

fun hit :: "string \<Rightarrow> int \<Rightarrow> action \<Rightarrow> bool" where
  "hit ps cur (Trap tp st c) = (if st \<le> cur then False else join tp = ps)"
| "hit ps cur (Call p as) = (join p = ps)"

text \<open>Lines 174-181: the position that \<^verbatim>\<open>saw.down\<close> moves the cursor to.\<close>

definition seek :: "string \<Rightarrow> int \<Rightarrow> action list \<Rightarrow> int" where
  "seek ps cur q =
     (let i = indexOf (map (hit ps cur) (slice q cur)) True
      in if i \<ge> 0 then cur + i else int (length q))"

definition saw_down :: "name \<Rightarrow> saw \<Rightarrow> effect \<times> saw" where
  "saw_down nm s =
     (case step s of
        None \<Rightarrow> (Throw (Error record_first), s)
      | Some cur \<Rightarrow>
          (let cur' = seek (join (as_path nm)) cur (actions s)
           in case at (actions s) (cur' - 1) of
                Some (Trap tp st c) \<Rightarrow> (fire c, s\<lparr>step := Some st\<rparr>)
              | _ \<Rightarrow> saw_next (s\<lparr>step := Some cur'\<rparr>)))"

definition saw_jump :: "int \<Rightarrow> saw \<Rightarrow> effect \<times> saw" where
  "saw_jump st s =
     (case step s of
        None \<Rightarrow> (Throw (Error record_first), s)
      | Some cur \<Rightarrow> saw_next (s\<lparr>step := Some st\<rparr>))"

section \<open>The store of chains, the scheduler and the event emitter\<close>

text \<open>
  Chains are objects that refer to each other (a nested chain holds its parent's
  \<^verbatim>\<open>next\<close> as a listener, a proxy holds its chain), so they live in a store and are named
  by their address. \<open>ticks\<close> is the queue of \<^verbatim>\<open>process.nextTick\<close>: the chains whose
  \<^verbatim>\<open>begin\<close>/\<^verbatim>\<open>next\<close> callback of lines 75-78 is scheduled. \<open>trace\<close> is what has left
  the module so far: the events emitted and the handlers and trap callbacks called.
\<close>

datatype event =
    Emitted nat string
  | Invoked nat fid "fid jsval" "fid jsval list"
  | Delegated nat fid "fid jsval" "fid jsval" "fid jsval list"
  | Fired nat fid

record world =
  saws :: "saw list"
  ticks :: "nat list"
  trace :: "event list"

definition put :: "nat \<Rightarrow> saw \<Rightarrow> world \<Rightarrow> world" where
  "put i s w = w\<lparr>saws := (saws w)[i := s]\<rparr>"

definition emit :: "event \<Rightarrow> world \<Rightarrow> world" where
  "emit ev w = w\<lparr>trace := trace w @ [ev]\<rparr>"

text \<open>The entries of the trace that are calls of trap callbacks.\<close>

fun is_fired :: "event \<Rightarrow> bool" where
  "is_fired (Fired i f) = True"
| "is_fired ev = False"

text \<open>
  A call \<^verbatim>\<open>saw.m(...)\<close> on the chain at address \<open>i\<close>, where \<open>m\<close> is one of the methods
  above: the chain is updated and the effect takes place. \<^verbatim>\<open>saw.emit('end')\<close> calls the
  listeners in the order they were registered, inside the call; a listener is the
  \<^verbatim>\<open>next\<close> of another chain, which may emit \<^verbatim>\<open>end\<close> in turn. The first argument bounds
  the depth of these calls (the JavaScript stack is bounded as well); \<open>None\<close> means that
  the bound was reached. A throw passes through \<^verbatim>\<open>emit\<close> to the caller, and the listeners
  after the throwing one are not called. An address outside the store names no chain,
  and the model lets a call on it throw.
\<close>

fun call :: "nat \<Rightarrow> (saw \<Rightarrow> effect \<times> saw) \<Rightarrow> nat \<Rightarrow> world \<Rightarrow> (error option \<times> world) option"
  and notify :: "nat \<Rightarrow> listener list \<Rightarrow> world \<Rightarrow> (error option \<times> world) option" where
  "call 0 m i w = None"
| "call (Suc k) m i w =
     (if i < length (saws w) then
        (case m (saws w ! i) of
           (Nothing, s') \<Rightarrow> Some (None, put i s' w)
         | (Throw e, s') \<Rightarrow> Some (Some e, put i s' w)
         | (Invoke f this as, s') \<Rightarrow> Some (None, emit (Invoked i f this as) (put i s' w))
         | (Delegate g node this as, s') \<Rightarrow>
             Some (None, emit (Delegated i g node this as) (put i s' w))
         | (Fire f, s') \<Rightarrow> Some (None, emit (Fired i f) (put i s' w))
         | (EmitEnd, s') \<Rightarrow> notify k (on_end s') (emit (Emitted i ''end'') (put i s' w)))
      else Some (Some TypeError, w))"
| "notify k [] w = Some (None, w)"
| "notify k (NextOf j # ls) w =
     (case call k saw_next j w of
        None \<Rightarrow> None
      | Some (Some e, w') \<Rightarrow> Some (Some e, w')
      | Some (None, w') \<Rightarrow> notify k ls w')"

text \<open>The callback that \<^verbatim>\<open>saw.chain\<close> hands to \<^verbatim>\<open>process.nextTick\<close>, run for the chain at
  the head of the queue.\<close>

definition tick :: "nat \<Rightarrow> world \<Rightarrow> (error option \<times> world) option" where
  "tick k w =
     (case ticks w of
        [] \<Rightarrow> Some (None, w)
      | i # rest \<Rightarrow> call k saw_next i (emit (Emitted i ''begin'') (w\<lparr>ticks := rest\<rparr>)))"

section \<open>The interceptor at work\<close>

text \<open>
  \<^verbatim>\<open>saw.chain\<close> for the chain at address \<open>i\<close>: the proxied copy of its handlers, and the
  \<^verbatim>\<open>begin\<close>/\<^verbatim>\<open>next\<close> callback scheduled for a later tick.
\<close>

definition saw_chain :: "nat \<Rightarrow> world \<Rightarrow> callee jsval \<times> world" where
  "saw_chain i w = (walk i [] (handlers (saws w ! i)), w\<lparr>ticks := ticks w @ [i]\<rparr>)"

text \<open>
  The closure installed at a function node (lines 63-71): it pushes one record with its
  path and the arguments of the call onto the queue of its chain, and returns \<^verbatim>\<open>ch\<close>,
  the surface that \<^verbatim>\<open>saw.chain\<close> returned.
\<close>

definition proxy ::
  "callee jsval \<Rightarrow> nat \<Rightarrow> path \<Rightarrow> fid jsval list \<Rightarrow> world \<Rightarrow> callee jsval \<times> world" where
  "proxy ch i ps as w =
     (ch, put i ((saws w ! i)\<lparr>actions := actions (saws w ! i) @ [Call ps as]\<rparr>) w)"

text \<open>
  A fluent call \<^verbatim>\<open>ch.k1.k2(args)\<close> made by the user of the chain, in a realm \<open>rt\<close> that
  says what the reads find besides the listed properties of the surface. Three things
  can happen: the node is one of the closures above; the node is another function (the
  root function, which \<^verbatim>\<open>saw.chain\<close> leaves in place, or a function of the realm), so that
  the real function runs at once; or there is no function there and the call throws.
\<close>

datatype reply = Chained "callee jsval" | Ran fid | Failed error

definition fluent ::
  "callee realm \<Rightarrow> callee jsval \<Rightarrow> path \<Rightarrow> fid jsval list \<Rightarrow> world \<Rightarrow> reply \<times> world" where
  "fluent rt ch p as w =
     (case follow rt ch p of
        Inl e \<Rightarrow> (Failed e, w)
      | Inr (Fun (Proxy i ps)) \<Rightarrow> (case proxy ch i ps as w of (r, w') \<Rightarrow> (Chained r, w'))
      | Inr (Fun (Orig f)) \<Rightarrow> (Ran f, w)
      | Inr v \<Rightarrow> (Failed TypeError, w))"

text \<open>A burst of fluent calls on the same surface, in the order they are issued.\<close>

fun fluents ::
  "callee realm \<Rightarrow> callee jsval \<Rightarrow> (path \<times> fid jsval list) list \<Rightarrow> world \<Rightarrow> world" where
  "fluents rt ch [] w = w"
| "fluents rt ch ((p, as) # cs) w = fluents rt ch cs (snd (fluent rt ch p as w))"

section \<open>Construction and nesting\<close>

text \<open>\<^verbatim>\<open>chainsaw.saw(builder, handlers)\<close>, lines 39-153.\<close>

definition chainsaw_saw :: "builder \<Rightarrow> fid jsval \<Rightarrow> saw" where
  "chainsaw_saw b h = \<lparr>builder = b, handlers = h, actions = [], step = None, on_end = []\<rparr>"

text \<open>
  \<^verbatim>\<open>var r = builder.call(s.handlers, s); if (r !== undefined) s.handlers = r;\<close>
  for a chain whose handlers are still the empty object it was made with.
\<close>

definition build :: "saw \<Rightarrow> saw" where
  "build s =
     (let b = builder s; r = returns b
      in if r \<noteq> Undefined then s\<lparr>handlers := r\<rparr> else s\<lparr>handlers := Obj (attaches b)\<rparr>)"

definition alloc :: "saw \<Rightarrow> world \<Rightarrow> nat \<times> world" where
  "alloc s w = (length (saws w), w\<lparr>saws := saws w @ [s]\<rparr>)"

text \<open>The two entry points, lines 8-36.\<close>

definition chainsaw :: "builder \<Rightarrow> world \<Rightarrow> callee jsval \<times> world" where
  "chainsaw b w =
     (case alloc (saw_record (build (chainsaw_saw b (Obj [])))) w of
        (i, w') \<Rightarrow> saw_chain i w')"

definition chainsaw_light :: "builder \<Rightarrow> world \<Rightarrow> callee jsval \<times> world" where
  "chainsaw_light b w =
     (case alloc (build (chainsaw_saw b (Obj []))) w of
        (i, w') \<Rightarrow> saw_chain i w')"

text \<open>
  \<^verbatim>\<open>saw.nest\<close>, lines 109-138, for the chain at address \<open>i\<close> called with the argument list
  \<open>argv\<close>. Lines 110-116 sort the arguments: a leading boolean is \<^verbatim>\<open>autonext\<close>, and the
  callback is the argument after it.
\<close>

definition nest_args :: "fid jsval list \<Rightarrow> bool \<times> fid jsval \<times> fid jsval list" where
  "nest_args argv =
     (let cb0 = (case argv of [] \<Rightarrow> Undefined | c # rest \<Rightarrow> c);
          args0 = tl argv
      in case cb0 of
           Bool b \<Rightarrow> (b, (case args0 of [] \<Rightarrow> Undefined | c # rest \<Rightarrow> c), tl args0)
         | v \<Rightarrow> (True, cb0, args0))"

text \<open>Lines 120-134: the new chain, made with the builder of the parent, and recording
  if \<^verbatim>\<open>saw.step\<close> of the parent is defined.\<close>

definition nested_saw :: "saw \<Rightarrow> saw" where
  "nested_saw parent =
     (let s = build (chainsaw_saw (builder parent) (Obj []))
      in if step parent \<noteq> None then saw_record s else s)"

text \<open>
  The callback is code from outside the module that runs in the middle of \<^verbatim>\<open>nest\<close>, so
  the method is given in two halves. \<open>nest_enter\<close> is everything up to the moment the
  callback is entered: it yields the address of the new chain, the function that is
  entered, the surface of the new chain, the arguments, and \<^verbatim>\<open>autonext\<close>.
  \<open>nest_leave\<close> is line 137.

  \<^verbatim>\<open>cb.apply(s.chain(), args)\<close>, line 136, reads \<^verbatim>\<open>cb.apply\<close> first, which throws on
  \<^verbatim>\<open>undefined\<close> and \<^verbatim>\<open>null\<close>; then \<^verbatim>\<open>s.chain()\<close> is evaluated; then the value read is called,
  which throws if it is not a function. On a function \<open>f\<close> the value read is the method
  of \<^verbatim>\<open>Function.prototype\<close>, and \<open>f\<close> is entered with the surface as \<^verbatim>\<open>this\<close> and with the
  arguments (\<open>Applied\<close>). On another value the read is left to the realm, and a function
  \<open>g\<close> found there is entered as a method of that value, with the surface and the array
  of arguments as its two arguments (\<open>Method\<close>).
\<close>

datatype callback = Applied fid | Method fid "fid jsval"

datatype entry =
    Aborted error world
  | Entered nat callback "callee jsval" "fid jsval list" bool world

definition nest_enter :: "nat \<Rightarrow> fid jsval list \<Rightarrow> world \<Rightarrow> entry" where
  "nest_enter i argv w =
     (case nest_args argv of
        (autonext, fn, xs) \<Rightarrow>
          (case alloc (nested_saw (saws w ! i)) w of
             (c, w1) \<Rightarrow>
               (case fn of
                  Fun f \<Rightarrow>
                    (case saw_chain c w1 of (ch, w2) \<Rightarrow> Entered c (Applied f) ch xs autonext w2)
                | v \<Rightarrow>
                    (case read (beyond (builder (saws w ! i))) v ''apply'' of
                       Inl e \<Rightarrow> Aborted e w1
                     | Inr (Fun g) \<Rightarrow>
                         (case saw_chain c w1 of
                            (ch, w2) \<Rightarrow> Entered c (Method g v) ch xs autonext w2)
                     | Inr u \<Rightarrow> Aborted TypeError (snd (saw_chain c w1))))))"

definition nest_leave :: "nat \<Rightarrow> nat \<Rightarrow> bool \<Rightarrow> world \<Rightarrow> world" where
  "nest_leave i c autonext w =
     (if autonext \<noteq> False
      then put c ((saws w ! c)\<lparr>on_end := on_end (saws w ! c) @ [NextOf i]\<rparr>) w
      else w)"

text \<open>
  The whole method, for a callback whose behaviour is \<open>body\<close>: given the function that
  is entered, the surface and the arguments, \<open>body\<close> changes the world and returns or
  throws.
\<close>

definition saw_nest ::
  "(callback \<Rightarrow> callee jsval \<Rightarrow> fid jsval list \<Rightarrow> world \<Rightarrow> error option \<times> world) \<Rightarrow>
     nat \<Rightarrow> fid jsval list \<Rightarrow> world \<Rightarrow> error option \<times> world" where
  "saw_nest body i argv w =
     (case nest_enter i argv w of
        Aborted e w' \<Rightarrow> (Some e, w')
      | Entered c f ch xs autonext w' \<Rightarrow>
          (case body f ch xs w' of
             (Some e, w'') \<Rightarrow> (Some e, w'')
           | (None, w'') \<Rightarrow> (None, nest_leave i c autonext w'')))"

section \<open>Runs of calls\<close>

text \<open>
  What the code around the module does with the chains of a store, one thing after the
  other. It calls a method of a chain: \<^verbatim>\<open>next\<close>, \<^verbatim>\<open>pop\<close>, \<^verbatim>\<open>down\<close>, \<^verbatim>\<open>jump\<close>, \<^verbatim>\<open>trap\<close>,
  \<^verbatim>\<open>record\<close>, \<^verbatim>\<open>emit('end')\<close> or \<^verbatim>\<open>nest\<close>; it calls a proxied operation of a chain; or the
  scheduler runs the tick at the head of its queue. A call of \<^verbatim>\<open>nest\<close> is two entries
  with the calls of its callback between them: \<open>Enter\<close> is the method up to the moment
  the callback is entered, and \<open>Leave\<close> is line 137, for the parent, the child and the
  \<^verbatim>\<open>autonext\<close> of that call; a callback that throws is an \<open>Enter\<close> without its \<open>Leave\<close>.
  A throw goes to the code that made the call; what that code does then is the rest of
  the list.
\<close>

datatype op =
    Next nat
  | Pop nat
  | Down nat name
  | Jump nat int
  | Snare nat name "fid jsval"
  | Rewind nat
  | Finish nat
  | Push nat path "fid jsval list"
  | Tick
  | Enter nat "fid jsval list"
  | Leave nat nat bool

text \<open>The methods that have no name above, as functions of the chain: \<^verbatim>\<open>saw.pop()\<close>, whose
  result goes to the caller, \<^verbatim>\<open>saw.record()\<close> and \<^verbatim>\<open>saw.emit('end')\<close>.\<close>

definition popped :: "saw \<Rightarrow> effect \<times> saw" where
  "popped s = (Nothing, snd (saw_pop s))"

definition rewind :: "saw \<Rightarrow> effect \<times> saw" where
  "rewind s = (Nothing, saw_record s)"

definition finish :: "saw \<Rightarrow> effect \<times> saw" where
  "finish s = (EmitEnd, s)"

fun act :: "nat \<Rightarrow> op \<Rightarrow> world \<Rightarrow> (error option \<times> world) option" where
  "act k (Next j) w = call k saw_next j w"
| "act k (Pop j) w = call k popped j w"
| "act k (Down j nm) w = call k (saw_down nm) j w"
| "act k (Jump j st) w = call k (saw_jump st) j w"
| "act k (Snare j nm c) w = call k (saw_trap nm c) j w"
| "act k (Rewind j) w = call k rewind j w"
| "act k (Finish j) w = call k finish j w"
| "act k (Push j p as) w = Some (None, snd (proxy (walk j [] (handlers (saws w ! j))) j p as w))"
| "act k Tick w = tick k w"
| "act k (Enter j argv) w =
     (case nest_enter j argv w of
        Aborted e w' \<Rightarrow> Some (Some e, w')
      | Entered c f ch xs an w' \<Rightarrow> Some (None, w'))"
| "act k (Leave j c an) w = Some (None, nest_leave j c an w)"

fun drive :: "nat \<Rightarrow> op list \<Rightarrow> world \<Rightarrow> world option" where
  "drive k [] w = Some w"
| "drive k (x # xs) w = (case act k x w of None \<Rightarrow> None | Some (r, w') \<Rightarrow> drive k xs w')"

text \<open>
  Whether an entry of a run is a call of a method of the chain \<open>i\<close>; for \<open>Leave\<close> the
  method is \<^verbatim>\<open>nest\<close> of the parent and \<^verbatim>\<open>on\<close> of the child. And whether a \<open>Leave\<close> is one that
  \<^verbatim>\<open>nest\<close> can make: the child of a call of \<^verbatim>\<open>nest\<close> is a new chain, so its address is above
  that of the parent.
\<close>

fun aims :: "nat \<Rightarrow> op \<Rightarrow> bool" where
  "aims i (Next j) = (j = i)"
| "aims i (Pop j) = (j = i)"
| "aims i (Down j nm) = (j = i)"
| "aims i (Jump j st) = (j = i)"
| "aims i (Snare j nm c) = (j = i)"
| "aims i (Rewind j) = (j = i)"
| "aims i (Finish j) = (j = i)"
| "aims i (Push j p as) = (j = i)"
| "aims i Tick = False"
| "aims i (Enter j argv) = (j = i)"
| "aims i (Leave j c an) = (j = i \<or> c = i)"

fun upward :: "op \<Rightarrow> bool" where
  "upward (Leave j c an) = (j < c)"
| "upward x = True"

text \<open>The chain that an entry of the trace belongs to.\<close>

fun chain_of :: "event \<Rightarrow> nat" where
  "chain_of (Emitted j n) = j"
| "chain_of (Invoked j f this as) = j"
| "chain_of (Delegated j g node this as) = j"
| "chain_of (Fired j f) = j"

text \<open>
  What a run keeps, seen from a chain \<open>i\<close>: the chains that were there are still there,
  the chains that hold the \<^verbatim>\<open>next\<close> of \<open>i\<close> among their \<^verbatim>\<open>end\<close> listeners are the same,
  no tick of \<open>i\<close> has been scheduled, and the trace has only grown.
\<close>

definition steady :: "nat \<Rightarrow> world \<Rightarrow> world \<Rightarrow> bool" where
  "steady i w w' =
     (length (saws w) \<le> length (saws w')
      \<and> (\<forall>q < length (saws w').
            (NextOf i \<in> set (on_end (saws w' ! q))) =
              (q < length (saws w) \<and> NextOf i \<in> set (on_end (saws w ! q))))
      \<and> (i \<in> set (ticks w') \<longrightarrow> i \<in> set (ticks w))
      \<and> take (length (trace w)) (trace w') = trace w)"

section \<open>Notions used in the statements\<close>

text \<open>
  The operations of a surface are the functions that the builder put there: the ones at
  the end of a path of listed properties, which are the nodes that \<^verbatim>\<open>traverse\<close> visits and
  \<^verbatim>\<open>saw.chain\<close> wraps. \<open>get\<close> looks a key up among the listed properties of a node and
  \<open>resolve\<close> follows a path of such lookups; unlike \<open>read\<close> and \<open>follow\<close> they see
  nothing that is inherited. \<open>operation\<close> is the function that the handlers hold at a
  path in this sense, if there is one; \<open>record_of\<close> is the record that a proxied call
  with a given path and arguments leaves in the queue.
\<close>

fun get :: "'f jsval \<Rightarrow> string \<Rightarrow> error + 'f jsval" where
  "get Undefined k = Inl TypeError"
| "get Null k = Inl TypeError"
| "get (Obj kvs) k = Inr (case map_of kvs k of None \<Rightarrow> Undefined | Some v \<Rightarrow> v)"
| "get v k = Inr Undefined"

fun resolve :: "'f jsval \<Rightarrow> path \<Rightarrow> error + 'f jsval" where
  "resolve node [] = Inr node"
| "resolve node (key # keys) =
     (case get node key of Inl e \<Rightarrow> Inl e | Inr child \<Rightarrow> resolve child keys)"

definition operation :: "fid jsval \<Rightarrow> path \<Rightarrow> fid option" where
  "operation h p = (case resolve h p of Inr (Fun f) \<Rightarrow> Some f | _ \<Rightarrow> None)"

definition record_of :: "path \<times> fid jsval list \<Rightarrow> action" where
  "record_of c = Call (fst c) (snd c)"

text \<open>A store in which every listener is the \<^verbatim>\<open>next\<close> of a chain at a smaller address
  than the chain it listens to. \<^verbatim>\<open>saw.nest\<close> registers the \<^verbatim>\<open>next\<close> of the parent on a chain
  it has just made, so the stores that the module builds are of this kind.\<close>

fun older :: "nat \<Rightarrow> listener \<Rightarrow> bool" where
  "older j (NextOf p) = (p < j)"

definition ordered :: "world \<Rightarrow> bool" where
  "ordered w = list_all (\<lambda>(j, s). list_all (older j) (on_end s)) (enumerate 0 (saws w))"

text \<open>
  The records that a chain has still ahead of it: the queue of a light chain, and the
  part of the queue from the cursor on in a recording chain. A chain is \<open>forward\<close> when
  its cursor, if it has one, is not negative; \<^verbatim>\<open>saw.jump\<close> takes any number, so a recording
  chain need not be.
\<close>

definition pending :: "saw \<Rightarrow> action list" where
  "pending s = (case step s of None \<Rightarrow> actions s | Some c \<Rightarrow> drop (nat c) (actions s))"

definition forward :: "saw \<Rightarrow> bool" where
  "forward s = (case step s of None \<Rightarrow> True | Some c \<Rightarrow> 0 \<le> c)"

section \<open>Example chains\<close>

text \<open>Two realms. In the first a read finds nothing besides the listed properties. In
  the second every object inherits the function \<^verbatim>\<open>toString\<close>, as it does from
  \<^verbatim>\<open>Object.prototype\<close>; 100 stands for that built-in.\<close>

definition bare :: "'f realm" where
  "bare v k = Inr Undefined"

fun plain_objects :: "fid realm" where
  "plain_objects (Obj kvs) k = (if k = ''toString'' then Inr (Fun 100) else Inr Undefined)"
| "plain_objects v k = Inr Undefined"

text \<open>The same realm for the surfaces that \<^verbatim>\<open>saw.chain\<close> returns.\<close>

fun plain_surfaces :: "callee realm" where
  "plain_surfaces (Obj kvs) k = (if k = ''toString'' then Inr (Fun (Orig 100)) else Inr Undefined)"
| "plain_surfaces v k = Inr Undefined"

text \<open>A surface with two operations, a nested surface with one more, and a plain value;
  a light chain over it, alone in the store. Then a recording chain stopped in front of
  a trap record, a light chain whose queue names things that are not operations, and a
  builder.\<close>

definition example_surface :: "fid jsval" where
  "example_surface =
     Obj [(''add'', Fun 1), (''do'', Fun 2), (''pars'', Obj [(''raise'', Fun 3)]), (''n'', Num 5)]"

definition example_saw :: saw where
  "example_saw =
     \<lparr>builder = \<lparr>attaches = [], returns = example_surface, beyond = bare\<rparr>, handlers = example_surface,
      actions = [], step = None, on_end = []\<rparr>"

definition example_world :: world where
  "example_world = \<lparr>saws = [example_saw], ticks = [], trace = []\<rparr>"


definition trapped_saw :: saw where
  "trapped_saw =
     \<lparr>builder = \<lparr>attaches = [], returns = Undefined, beyond = bare\<rparr>, handlers = Obj [(''add'', Fun 1)],
      actions = [Call [''add''] [Num 5], Trap [''catch''] 1 (Fun 7), Call [''sub''] []],
      step = Some 1, on_end = []\<rparr>"

definition stray_saw :: saw where
  "stray_saw =
     \<lparr>builder = \<lparr>attaches = [], returns = Undefined, beyond = bare\<rparr>,
      handlers = Obj [(''add'', Fun 1), (''n'', Num 5)],
      actions = [Call [''n''] [], Call [''sub'', ''x''] [], Call [''add''] [Num 1]],
      step = None, on_end = []\<rparr>"

definition empty_world :: world where
  "empty_world = \<lparr>saws = [], ticks = [], trace = []\<rparr>"

definition example_builder :: builder where
  "example_builder =
     \<lparr>attaches = [(''add'', Fun 1), (''do'', Fun 2)], returns = Undefined, beyond = bare\<rparr>"

text \<open>The light chain that \<^verbatim>\<open>chainsaw.light\<close> makes from the builder, and a burst of three
  fluent calls.\<close>

definition light_saw :: saw where
  "light_saw = build (chainsaw_saw example_builder (Obj []))"

definition example_calls :: "(path \<times> fid jsval list) list" where
  "example_calls = [([''add''], [Num 5]), ([''add''], [Num 10]), ([''do''], [Fun 9])]"

text \<open>A recording chain inside its handler \<^verbatim>\<open>raise\<close>: the record of \<^verbatim>\<open>raise\<close> has been
  taken (the cursor is 1), and the handler has registered a trap for \<^verbatim>\<open>catch\<close>.\<close>

definition snare_saw :: saw where
  "snare_saw =
     \<lparr>builder = \<lparr>attaches = [], returns = Undefined, beyond = bare\<rparr>,
      handlers = Obj [(''raise'', Fun 3)],
      actions = [Call [''raise''] [], Trap [''catch''] 1 (Fun 7)],
      step = Some 1, on_end = []\<rparr>"

text \<open>A recording chain inside its handler \<^verbatim>\<open>do\<close>, about to call \<^verbatim>\<open>saw.nest\<close>, alone in
  the store; and the store once \<^verbatim>\<open>nest\<close> has made the child and has called its
  \<^verbatim>\<open>chain\<close>.\<close>

definition parent_saw :: saw where
  "parent_saw =
     \<lparr>builder = example_builder, handlers = Obj (attaches example_builder),
      actions = [Call [''do''] [Fun 9], Call [''add''] [Num 1]],
      step = Some 1, on_end = []\<rparr>"

definition parent_world :: world where
  "parent_world = \<lparr>saws = [parent_saw], ticks = [], trace = []\<rparr>"

definition nested_world :: world where
  "nested_world = \<lparr>saws = [parent_saw, nested_saw parent_saw], ticks = [1], trace = []\<rparr>"

text \<open>Two callbacks for \<^verbatim>\<open>saw.nest\<close>: one that returns at once and one that throws. Then
  the store after the handler \<^verbatim>\<open>do\<close> of the chain above has called \<^verbatim>\<open>saw.nest\<close> once and
  twice with the first callback, and the store after the tick that follows.\<close>

definition returning ::
  "callback \<Rightarrow> callee jsval \<Rightarrow> fid jsval list \<Rightarrow> world \<Rightarrow> error option \<times> world" where
  "returning f ch xs v = (None, v)"

definition throwing ::
  "callback \<Rightarrow> callee jsval \<Rightarrow> fid jsval list \<Rightarrow> world \<Rightarrow> error option \<times> world" where
  "throwing f ch xs v = (Some (Error ''boom''), v)"

definition child_saw :: saw where
  "child_saw =
     \<lparr>builder = example_builder, handlers = Obj (attaches example_builder), actions = [],
      step = Some 0, on_end = [NextOf 0]\<rparr>"

definition once_nested :: world where
  "once_nested = \<lparr>saws = [parent_saw, child_saw], ticks = [1], trace = []\<rparr>"

definition twice_nested :: world where
  "twice_nested = \<lparr>saws = [parent_saw, child_saw, child_saw], ticks = [1, 2], trace = []\<rparr>"

definition overtaken :: world where
  "overtaken =
     \<lparr>saws = [parent_saw\<lparr>step := Some 2\<rparr>, child_saw\<lparr>step := Some 1\<rparr>, child_saw],
      ticks = [2],
      trace = [Emitted 1 ''begin'', Emitted 1 ''end'',
               Invoked 0 1 (Obj [(''add'', Fun 1), (''do'', Fun 2)]) [Num 1]]\<rparr>"

text \<open>A recording chain that has run to its end.\<close>

definition plain_saw :: saw where
  "plain_saw =
     \<lparr>builder = \<lparr>attaches = [], returns = Undefined, beyond = bare\<rparr>,
      handlers = Obj [(''add'', Fun 1), (''sub'', Fun 2)],
      actions = [Call [''add''] [Num 5], Call [''add''] [Num 10], Call [''sub''] [Num 3]],
      step = Some 3, on_end = []\<rparr>"

text \<open>A light chain whose queue names \<^verbatim>\<open>toString\<close>, which its builder never attached, in
  the realm where objects inherit it; and a light chain whose handlers hold, under
  \<^verbatim>\<open>cfg\<close>, an object with a method \<^verbatim>\<open>apply\<close> of its own.\<close>

definition inherit_saw :: saw where
  "inherit_saw =
     \<lparr>builder = \<lparr>attaches = [(''add'', Fun 1)], returns = Undefined, beyond = plain_objects\<rparr>,
      handlers = Obj [(''add'', Fun 1)],
      actions = [Call [''toString''] []],
      step = None, on_end = []\<rparr>"

definition settings_saw :: saw where
  "settings_saw =
     \<lparr>builder = \<lparr>attaches = [], returns = Undefined, beyond = bare\<rparr>,
      handlers = Obj [(''add'', Fun 1), (''cfg'', Obj [(''apply'', Fun 5)])],
      actions = [Call [''cfg''] [Num 1]],
      step = None, on_end = []\<rparr>"

section \<open>The interceptor defers every operation\<close>

lemma map_of_relabel:
  "map_of (map (\<lambda>(k, v). (k, g k v)) kvs) key = map_option (g key) (map_of kvs key)"
  by (induction kvs) auto

lemma resolve_Undefined: "resolve Undefined p = Inr v \<Longrightarrow> p = [] \<and> v = Undefined"
  by (cases p) auto

lemma get_walk:
  assumes "get n k = Inr child" and "resolve child ks = Inr (Fun f)"
  shows "\<exists>kvs v. n = Obj kvs \<and> map_of kvs k = Some v \<and> child = v"
  using assms
  by (cases n) (auto dest: resolve_Undefined split: option.splits)

text \<open>Where a path of listed own properties ends in a function, the reads of
  JavaScript end in the same function, whatever the realm: a listed property is found
  first.\<close>

lemma follow_resolve:
  "resolve h p = Inr (Fun f) \<Longrightarrow> follow rt h p = Inr (Fun f)"
proof (induction p arbitrary: h)
  case Nil
  then show ?case by simp
next
  case (Cons k ks)
  from Cons.prems obtain child where c: "get h k = Inr child" "resolve child ks = Inr (Fun f)"
    by (auto split: sum.splits)
  from get_walk[OF c] obtain kvs where n: "h = Obj kvs" "map_of kvs k = Some child"
    by blast
  then show ?case using Cons.IH[OF c(2)] by simp
qed

text \<open>In the realm where a read finds nothing besides the listed properties, the reads
  of JavaScript are the lookups.\<close>

lemma read_bare: "read bare n k = get n k"
  by (cases n) (simp_all add: bare_def split: option.splits)

lemma follow_bare: "follow bare n p = resolve n p"
  by (induction p arbitrary: n) (simp_all add: read_bare split: sum.splits)

lemma resolve_walk:
  "resolve n p = Inr (Fun f) \<Longrightarrow> ps @ p \<noteq> [] \<Longrightarrow>
     resolve (walk i ps n) p = Inr (Fun (Proxy i (ps @ p)))"
proof (induction p arbitrary: n ps)
  case Nil
  then show ?case by simp
next
  case (Cons k ks)
  from Cons.prems(1) obtain child where c: "get n k = Inr child" "resolve child ks = Inr (Fun f)"
    by (auto split: sum.splits)
  from get_walk[OF c] obtain kvs where n: "n = Obj kvs" "map_of kvs k = Some child"
    by blast
  have "resolve (walk i (ps @ [k]) child) ks = Inr (Fun (Proxy i ((ps @ [k]) @ ks)))"
    using Cons.IH[OF c(2), of "ps @ [k]"] by simp
  then show ?case using n by (simp add: map_of_relabel)
qed

lemma fluent_proxied:
  assumes "resolve h p = Inr (Fun f)" and "p \<noteq> []"
  shows "fluent rt (walk i [] h) p as v =
           (Chained (walk i [] h),
            put i ((saws v ! i)\<lparr>actions := actions (saws v ! i) @ [Call p as]\<rparr>) v)"
proof -
  have "resolve (walk i [] h) p = Inr (Fun (Proxy i p))"
    using resolve_walk[OF assms(1), of "[]" i] assms(2) by simp
  then have "follow rt (walk i [] h) p = Inr (Fun (Proxy i p))"
    by (rule follow_resolve)
  then show ?thesis by (simp add: fluent_def proxy_def)
qed


text \<open>
  Claim C1. \<^verbatim>\<open>saw.chain\<close> runs nothing: it returns the surface and schedules one tick.
  At every path below the root where the handlers hold a function, the surface holds a
  proxy; calling it, in any later state \<open>v\<close> of the store, appends exactly the record
  of that path and those arguments to the queue of the chain, returns the surface
  itself, and touches neither the trace (no handler runs) nor the scheduler. The root
  is not wrapped: a root function stays the function it was, and a root object keeps
  its keys.
\<close>

theorem chain_defers_every_operation:
  assumes "ch = fst (saw_chain i w)"
  shows "snd (saw_chain i w) = w\<lparr>ticks := ticks w @ [i]\<rparr>
       \<and> (\<forall>rt p f as v. p \<noteq> [] \<and> resolve (handlers (saws w ! i)) p = Inr (Fun f) \<longrightarrow>
             fluent rt ch p as v =
               (Chained ch, put i ((saws v ! i)\<lparr>actions := actions (saws v ! i) @ [Call p as]\<rparr>) v)
           \<and> trace (snd (fluent rt ch p as v)) = trace v
           \<and> ticks (snd (fluent rt ch p as v)) = ticks v
           \<and> (i < length (saws v) \<longrightarrow>
                actions (saws (snd (fluent rt ch p as v)) ! i) = actions (saws v ! i) @ [Call p as]))
       \<and> (\<forall>g. handlers (saws w ! i) = Fun g \<longrightarrow> ch = Fun (Orig g))
       \<and> (\<forall>kvs. handlers (saws w ! i) = Obj kvs \<longrightarrow>
             (\<exists>kvs'. ch = Obj kvs' \<and> map fst kvs' = map fst kvs))"
proof -
  have ch: "ch = walk i [] (handlers (saws w ! i))"
    using assms by (simp add: saw_chain_def)
  have a: "snd (saw_chain i w) = w\<lparr>ticks := ticks w @ [i]\<rparr>"
    by (simp add: saw_chain_def)
  have b: "\<forall>rt p f as v. p \<noteq> [] \<and> resolve (handlers (saws w ! i)) p = Inr (Fun f) \<longrightarrow>
             fluent rt ch p as v =
               (Chained ch, put i ((saws v ! i)\<lparr>actions := actions (saws v ! i) @ [Call p as]\<rparr>) v)
           \<and> trace (snd (fluent rt ch p as v)) = trace v
           \<and> ticks (snd (fluent rt ch p as v)) = ticks v
           \<and> (i < length (saws v) \<longrightarrow>
                actions (saws (snd (fluent rt ch p as v)) ! i) = actions (saws v ! i) @ [Call p as])"
    by (simp add: ch fluent_proxied put_def)
  have c: "\<forall>g. handlers (saws w ! i) = Fun g \<longrightarrow> ch = Fun (Orig g)"
    by (simp add: ch)
  have d: "\<forall>kvs. handlers (saws w ! i) = Obj kvs \<longrightarrow>
             (\<exists>kvs'. ch = Obj kvs' \<and> map fst kvs' = map fst kvs)"
    by (auto simp: ch split_def comp_def)
  from a b c d show ?thesis by blast
qed

theorem chain_defers_every_operation_witness:
  "fluent plain_surfaces (fst (saw_chain 0 example_world)) [''pars'', ''raise''] [Str ''oops''] example_world =
     (Chained (fst (saw_chain 0 example_world)),
      \<lparr>saws = [example_saw\<lparr>actions := [Call [''pars'', ''raise''] [Str ''oops'']]\<rparr>],
       ticks = [], trace = []\<rparr>)
   \<and> fst (saw_chain 0 example_world) =
       Obj [(''add'', Fun (Proxy 0 [''add''])), (''do'', Fun (Proxy 0 [''do''])),
            (''pars'', Obj [(''raise'', Fun (Proxy 0 [''pars'', ''raise'']))]), (''n'', Num 5)]"
proof -
  have r: "[''pars'', ''raise''] \<noteq> [] \<and>
      resolve (handlers (saws example_world ! 0)) [''pars'', ''raise''] = Inr (Fun 3)"
    by (simp add: example_world_def example_saw_def example_surface_def)
  have "fluent plain_surfaces (fst (saw_chain 0 example_world)) [''pars'', ''raise''] [Str ''oops''] example_world =
     (Chained (fst (saw_chain 0 example_world)),
      put 0 ((saws example_world ! 0)\<lparr>actions := actions (saws example_world ! 0)
         @ [Call [''pars'', ''raise''] [Str ''oops'']]\<rparr>) example_world)"
    using chain_defers_every_operation[of "fst (saw_chain 0 example_world)" 0 example_world] r
    by blast
  moreover have "fst (saw_chain 0 example_world) =
       Obj [(''add'', Fun (Proxy 0 [''add''])), (''do'', Fun (Proxy 0 [''do''])),
            (''pars'', Obj [(''raise'', Fun (Proxy 0 [''pars'', ''raise'']))]), (''n'', Num 5)]"
    by (simp add: saw_chain_def example_world_def example_saw_def example_surface_def)
  ultimately show ?thesis
    by (simp add: put_def example_world_def example_saw_def)
qed

section \<open>The execution driver\<close>

lemma handlers_saw_pop: "handlers (snd (saw_pop s)) = handlers s"
  by (simp add: saw_pop_def split: option.splits list.splits)

lemma builder_saw_pop: "builder (snd (saw_pop s)) = builder s"
  by (simp add: saw_pop_def split: option.splits list.splits)

lemma invoke_not_end: "invoke rt n this as \<noteq> EmitEnd"
  by (cases n) (auto split: sum.splits jsval.splits)

lemma invoke_not_fire: "invoke rt n this as \<noteq> Fire f"
  by (cases n) (auto split: sum.splits jsval.splits)

lemma perform_not_end: "perform rt h a \<noteq> EmitEnd"
  by (cases a) (auto simp: invoke_not_end split: sum.splits)

lemma perform_not_fire: "perform rt h a \<noteq> Fire f"
  by (cases a) (auto simp: invoke_not_fire split: sum.splits)

lemma saw_next_not_fire: "fst (saw_next s) \<noteq> Fire f"
  by (simp add: saw_next_def perform_not_fire split: prod.splits option.splits)

lemma next_cascade_fires_nothing:
  "call k m i w = Some (r, w') \<Longrightarrow> m = saw_next \<Longrightarrow>
     filter is_fired (trace w') = filter is_fired (trace w)"
  "notify k ls w = Some (r, w') \<Longrightarrow>
     filter is_fired (trace w') = filter is_fired (trace w)"
proof (induction k m i w and k ls w arbitrary: r w' and r w' rule: call_notify.induct)
  case (1 m i w)
  then show ?case by simp
next
  case (2 k m i w)
  show ?case
  proof (cases "i < length (saws w)")
    case False
    with "2.prems" show ?thesis by simp
  next
    case True
    obtain e s' where m: "saw_next (saws w ! i) = (e, s')" by fastforce
    have nf: "\<And>f. e \<noteq> Fire f" using saw_next_not_fire[of "saws w ! i"] m by simp
    show ?thesis
    proof (cases e)
      case EmitEnd
      have "notify k (on_end s') (emit (Emitted i ''end'') (put i s' w)) = Some (r, w')"
        using "2.prems" True m EmitEnd by simp
      from "2.IH"[OF True _ _ this] m EmitEnd "2.prems"(2)
      show ?thesis by (simp add: emit_def put_def)
    qed (use "2.prems" True m nf in \<open>auto simp: emit_def put_def\<close>)
  qed
next
  case (3 k w)
  then show ?case by simp
next
  case (4 k j ls w)
  show ?case
  proof (cases "call k saw_next j w")
    case None
    with "4.prems" show ?thesis by simp
  next
    case (Some a)
    obtain r1 w1 where a: "a = (r1, w1)" by fastforce
    have t1: "filter is_fired (trace w1) = filter is_fired (trace w)"
      using "4.IH"(1)[of r1 w1] Some a by simp
    show ?thesis
    proof (cases r1)
      case None
      then have "notify k ls w1 = Some (r, w')" using "4.prems" Some a by simp
      from "4.IH"(2)[OF _ _ _ this] Some a None t1 show ?thesis by simp
    next
      case (Some e)
      then show ?thesis using "4.prems" \<open>call k saw_next j w = Some a\<close> a t1 by simp
    qed
  qed
qed

lemma at_None: "at xs i = None \<longleftrightarrow> (i < 0 \<or> int (length xs) \<le> i)"
  by (auto simp: at_def)

lemma saw_pop_None:
  "fst (saw_pop s) = None \<longleftrightarrow>
     (case step s of None \<Rightarrow> actions s = [] | Some i \<Rightarrow> i < 0 \<or> int (length (actions s)) \<le> i)"
  by (auto simp: saw_pop_def at_None split: option.splits list.splits)

lemma saw_next_end: "fst (saw_next s) = EmitEnd \<longleftrightarrow> fst (saw_pop s) = None"
  by (auto simp: saw_next_def perform_not_end split: prod.splits option.splits)

lemma step_saw_pop_light: "step s = None \<Longrightarrow> step (snd (saw_pop s)) = None"
  by (simp add: saw_pop_def split: list.splits)

lemma snd_saw_next: "snd (saw_next s) = snd (saw_pop s)"
  by (auto simp: saw_next_def split: prod.splits option.splits)

lemma put_same: "put i (saws w ! i) w = w"
  by (simp add: put_def)

lemma handlers_saw_next: "handlers (snd (saw_next s)) = handlers s"
  by (simp add: snd_saw_next handlers_saw_pop)

lemma builder_saw_next: "builder (snd (saw_next s)) = builder s"
  by (simp add: snd_saw_next builder_saw_pop)

lemma drop_Cons_nth:
  assumes "drop n xs = a # rest"
  shows "n < length xs" and "xs ! n = a" and "drop (Suc n) xs = rest"
proof -
  show n: "n < length xs"
  proof (rule ccontr)
    assume "\<not> n < length xs"
    then have "drop n xs = []" by simp
    with assms show False by simp
  qed
  from Cons_nth_drop_Suc[OF n] assms show "xs ! n = a" and "drop (Suc n) xs = rest"
    by simp_all
qed

lemma next_end_pending:
  "forward s \<Longrightarrow> fst (saw_next s) = EmitEnd \<longleftrightarrow> pending s = []"
  by (auto simp: saw_next_end saw_pop_None forward_def pending_def split: option.splits)

lemma next_takes_pending:
  assumes "forward s" and "pending s = a # rest"
  shows "saw_next s =
           (perform (beyond (builder s)) (handlers s) a,
            case step s of None \<Rightarrow> s\<lparr>actions := rest\<rparr> | Some c \<Rightarrow> s\<lparr>step := Some (c + 1)\<rparr>)"
    and "pending (snd (saw_next s)) = rest"
    and "forward (snd (saw_next s))"
proof -
  have "saw_next s =
           (perform (beyond (builder s)) (handlers s) a,
            case step s of None \<Rightarrow> s\<lparr>actions := rest\<rparr> | Some c \<Rightarrow> s\<lparr>step := Some (c + 1)\<rparr>)
      \<and> pending (snd (saw_next s)) = rest \<and> forward (snd (saw_next s))"
  proof (cases "step s")
    case None
    then have "actions s = a # rest" using assms(2) by (simp add: pending_def)
    then show ?thesis using None
      by (simp add: saw_next_def saw_pop_def pending_def forward_def del: perform.simps)
  next
    case (Some c)
    then have c: "0 \<le> c" and d: "drop (nat c) (actions s) = a # rest"
      using assms by (simp_all add: forward_def pending_def)
    note n = drop_Cons_nth[OF d]
    have at: "at (actions s) c = Some a" using c n(1,2) by (simp add: at_def)
    have "nat (c + 1) = Suc (nat c)" using c by simp
    then have "drop (nat (c + 1)) (actions s) = rest" using n(3) by simp
    then show ?thesis using Some at c
      by (simp add: saw_next_def saw_pop_def pending_def forward_def del: perform.simps)
  qed
  then show "saw_next s =
           (perform (beyond (builder s)) (handlers s) a,
            case step s of None \<Rightarrow> s\<lparr>actions := rest\<rparr> | Some c \<Rightarrow> s\<lparr>step := Some (c + 1)\<rparr>)"
    and "pending (snd (saw_next s)) = rest"
    and "forward (snd (saw_next s))"
    by blast+
qed

lemma run_Suc: "fst (run (Suc n) s) = fst (saw_next s) # fst (run n (snd (saw_next s)))"
  by (simp add: split_def)

lemma run_pending:
  "forward s \<Longrightarrow> length (pending s) = n \<Longrightarrow>
     fst (run (Suc n) s) = map (perform (beyond (builder s)) (handlers s)) (pending s) @ [EmitEnd]"
proof (induction n arbitrary: s)
  case 0
  then have "fst (saw_next s) = EmitEnd" by (simp add: next_end_pending)
  then show ?case using 0 by (simp add: split_def)
next
  case (Suc n)
  then obtain a rest where p: "pending s = a # rest" by (cases "pending s") auto
  note t = next_takes_pending[OF Suc.prems(1) p]
  have len: "length (pending (snd (saw_next s))) = n" using t(2) p Suc.prems(2) by simp
  have "fst (run (Suc n) (snd (saw_next s))) =
      map (perform (beyond (builder s)) (handlers s)) rest @ [EmitEnd]"
    using Suc.IH[OF t(3) len] t(2) by (simp only: handlers_saw_next builder_saw_next)
  moreover have "fst (saw_next s) = perform (beyond (builder s)) (handlers s) a"
    using t(1) by simp
  ultimately show ?case
    unfolding run_Suc[of "Suc n" s] p by (simp del: run.simps perform.simps)
qed

text \<open>
  Claim C6, as amended. Let the cursor of the chain, if it has one, be at least 0.
  \<^verbatim>\<open>saw.next\<close> signals \<^verbatim>\<open>end\<close> exactly when no record is ahead. When the first record
  ahead is a trap record, \<^verbatim>\<open>next\<close> calls nothing and moves past it: a light chain loses
  the record, a recording chain has its cursor moved on by one, and the records ahead
  are the ones that followed the trap. Calling \<^verbatim>\<open>next\<close> once more than there are records
  ahead performs these records in order and ends with the \<^verbatim>\<open>end\<close> signal. No call of \<^verbatim>\<open>next\<close>, \<^verbatim>\<open>jump\<close> or \<^verbatim>\<open>trap\<close>, on any chain,
  ends in a trap callback, and a call of \<^verbatim>\<open>next\<close> on a chain in the store, with every
  \<^verbatim>\<open>next\<close> of a parent that its \<^verbatim>\<open>end\<close> event sets off, adds no call of a trap callback to
  the trace; passing a trap record leaves the trace as it was.
\<close>

theorem next_ends_when_exhausted_and_skips_traps:
  "(forward s \<longrightarrow>
       (fst (saw_next s) = EmitEnd \<longleftrightarrow> pending s = [])
     \<and> (\<forall>tp st tc rest. pending s = Trap tp st tc # rest \<longrightarrow>
           saw_next s =
             (Nothing, case step s of None \<Rightarrow> s\<lparr>actions := rest\<rparr> | Some c \<Rightarrow> s\<lparr>step := Some (c + 1)\<rparr>)
         \<and> pending (snd (saw_next s)) = rest
         \<and> (\<forall>k i w. i < length (saws w) \<and> saws w ! i = s \<longrightarrow>
              (\<exists>w'. call (Suc k) saw_next i w = Some (None, w') \<and> trace w' = trace w)))
     \<and> fst (run (Suc (length (pending s))) s) =
         map (perform (beyond (builder s)) (handlers s)) (pending s) @ [EmitEnd])
   \<and> (\<forall>f. fst (saw_next s) \<noteq> Fire f)
   \<and> (\<forall>f. fst (saw_jump st' s) \<noteq> Fire f)
   \<and> (\<forall>f. fst (saw_trap nm c' s) \<noteq> Fire f)
   \<and> (\<forall>k i w r w'. call k saw_next i w = Some (r, w') \<longrightarrow>
         filter is_fired (trace w') = filter is_fired (trace w))"
proof -
  have a: "forward s \<longrightarrow> (fst (saw_next s) = EmitEnd \<longleftrightarrow> pending s = [])"
    by (simp add: next_end_pending)
  have b: "forward s \<longrightarrow> (\<forall>tp st tc rest. pending s = Trap tp st tc # rest \<longrightarrow>
           saw_next s =
             (Nothing, case step s of None \<Rightarrow> s\<lparr>actions := rest\<rparr> | Some c \<Rightarrow> s\<lparr>step := Some (c + 1)\<rparr>)
         \<and> pending (snd (saw_next s)) = rest
         \<and> (\<forall>k i w. i < length (saws w) \<and> saws w ! i = s \<longrightarrow>
              (\<exists>w'. call (Suc k) saw_next i w = Some (None, w') \<and> trace w' = trace w)))"
  proof (intro impI allI)
    fix tp st tc rest
    assume f: "forward s" and p: "pending s = Trap tp st tc # rest"
    note t = next_takes_pending[OF f p]
    have n: "saw_next s =
        (Nothing, case step s of None \<Rightarrow> s\<lparr>actions := rest\<rparr> | Some c \<Rightarrow> s\<lparr>step := Some (c + 1)\<rparr>)"
      using t(1) by simp
    have "\<forall>k i w. i < length (saws w) \<and> saws w ! i = s \<longrightarrow>
              (\<exists>w'. call (Suc k) saw_next i w = Some (None, w') \<and> trace w' = trace w)"
      using n by (simp add: put_def)
    with n t(2) show "saw_next s =
             (Nothing, case step s of None \<Rightarrow> s\<lparr>actions := rest\<rparr> | Some c \<Rightarrow> s\<lparr>step := Some (c + 1)\<rparr>)
         \<and> pending (snd (saw_next s)) = rest
         \<and> (\<forall>k i w. i < length (saws w) \<and> saws w ! i = s \<longrightarrow>
              (\<exists>w'. call (Suc k) saw_next i w = Some (None, w') \<and> trace w' = trace w))"
      by blast
  qed
  have r: "forward s \<longrightarrow> fst (run (Suc (length (pending s))) s) =
         map (perform (beyond (builder s)) (handlers s)) (pending s) @ [EmitEnd]"
    using run_pending[of s "length (pending s)"] by blast
  have c: "\<forall>f. fst (saw_next s) \<noteq> Fire f"
    by (simp add: saw_next_not_fire)
  have d: "\<forall>f. fst (saw_jump st' s) \<noteq> Fire f"
    by (simp add: saw_jump_def saw_next_not_fire split: option.splits)
  have e: "\<forall>f. fst (saw_trap nm c' s) \<noteq> Fire f"
    by (simp add: saw_trap_def split: option.splits)
  have f: "\<forall>k i w r w'. call k saw_next i w = Some (r, w') \<longrightarrow>
         filter is_fired (trace w') = filter is_fired (trace w)"
    using next_cascade_fires_nothing(1) by blast
  from a b r c d e f show ?thesis by blast
qed

theorem next_ends_when_exhausted_and_skips_traps_witness:
  "forward trapped_saw
   \<and> pending trapped_saw = [Trap [''catch''] 1 (Fun 7), Call [''sub''] []]
   \<and> saw_next trapped_saw = (Nothing, trapped_saw\<lparr>step := Some 2\<rparr>)
   \<and> pending (trapped_saw\<lparr>step := Some 2\<rparr>) = [Call [''sub''] []]
   \<and> fst (run 3 trapped_saw) = [Nothing, Throw TypeError, EmitEnd]
   \<and> forward (trapped_saw\<lparr>step := Some 3\<rparr>)
   \<and> pending (trapped_saw\<lparr>step := Some 3\<rparr>) = []
   \<and> fst (saw_next (trapped_saw\<lparr>step := Some 3\<rparr>)) = EmitEnd"
proof -
  have f: "forward trapped_saw" by (simp add: forward_def trapped_saw_def)
  have p: "pending trapped_saw = [Trap [''catch''] 1 (Fun 7), Call [''sub''] []]"
    by (simp add: pending_def trapped_saw_def)
  note t = next_ends_when_exhausted_and_skips_traps[of trapped_saw, THEN conjunct1, THEN mp, OF f]
  note t2 = t[THEN conjunct2, THEN conjunct1, THEN spec, THEN spec, THEN spec, THEN spec,
      THEN mp, OF p]
  have n: "saw_next trapped_saw = (Nothing, trapped_saw\<lparr>step := Some 2\<rparr>)"
    using t2[THEN conjunct1] by (simp add: trapped_saw_def)
  have q: "pending (trapped_saw\<lparr>step := Some 2\<rparr>) = [Call [''sub''] []]"
    using t2[THEN conjunct2, THEN conjunct1] unfolding n by simp
  have r: "fst (run 3 trapped_saw) = [Nothing, Throw TypeError, EmitEnd]"
    using t[THEN conjunct2, THEN conjunct2] unfolding p
    by (simp add: trapped_saw_def bare_def numeral_3_eq_3 del: run.simps)
  have f3: "forward (trapped_saw\<lparr>step := Some 3\<rparr>)" by (simp add: forward_def)
  have p3: "pending (trapped_saw\<lparr>step := Some 3\<rparr>) = []"
    by (simp add: pending_def trapped_saw_def)
  have e: "fst (saw_next (trapped_saw\<lparr>step := Some 3\<rparr>)) = EmitEnd"
    using next_ends_when_exhausted_and_skips_traps[of "trapped_saw\<lparr>step := Some 3\<rparr>",
        THEN conjunct1, THEN mp, OF f3, THEN conjunct1] p3 by simp
  from f p n q r f3 p3 e show ?thesis by blast
qed

text \<open>
  Claim C6 as it is written fails when the cursor is below 0, and \<^verbatim>\<open>saw.jump\<close> accepts
  any number. \<^verbatim>\<open>jump(-2)\<close> on \<open>plain_saw\<close>, a chain of three records, signals the end and
  leaves the cursor at \<open>-1\<close>; there \<^verbatim>\<open>next\<close> signals \<^verbatim>\<open>end\<close> with all three records ahead,
  and the three calls of \<^verbatim>\<open>next\<close> after it perform them.
\<close>

theorem end_before_pending_records_counterexample:
  "saw_jump (- 2) plain_saw = (EmitEnd, plain_saw\<lparr>step := Some (- 1)\<rparr>)
   \<and> pending (plain_saw\<lparr>step := Some (- 1)\<rparr>) =
       [Call [''add''] [Num 5], Call [''add''] [Num 10], Call [''sub''] [Num 3]]
   \<and> saw_next (plain_saw\<lparr>step := Some (- 1)\<rparr>) = (EmitEnd, plain_saw\<lparr>step := Some 0\<rparr>)
   \<and> fst (run 4 (plain_saw\<lparr>step := Some (- 1)\<rparr>)) =
       [EmitEnd,
        Invoke 1 (Obj [(''add'', Fun 1), (''sub'', Fun 2)]) [Num 5],
        Invoke 1 (Obj [(''add'', Fun 1), (''sub'', Fun 2)]) [Num 10],
        Invoke 2 (Obj [(''add'', Fun 1), (''sub'', Fun 2)]) [Num 3]]"
proof -
  have j: "saw_jump (- 2) plain_saw = (EmitEnd, plain_saw\<lparr>step := Some (- 1)\<rparr>)"
    by (simp add: saw_jump_def saw_next_def saw_pop_def at_def plain_saw_def)
  have p: "pending (plain_saw\<lparr>step := Some (- 1)\<rparr>) =
       [Call [''add''] [Num 5], Call [''add''] [Num 10], Call [''sub''] [Num 3]]"
    by (simp add: pending_def plain_saw_def)
  have n: "saw_next (plain_saw\<lparr>step := Some (- 1)\<rparr>) = (EmitEnd, plain_saw\<lparr>step := Some 0\<rparr>)"
    by (simp add: saw_next_def saw_pop_def at_def plain_saw_def)
  have r: "fst (run 4 (plain_saw\<lparr>step := Some (- 1)\<rparr>)) =
       [EmitEnd,
        Invoke 1 (Obj [(''add'', Fun 1), (''sub'', Fun 2)]) [Num 5],
        Invoke 1 (Obj [(''add'', Fun 1), (''sub'', Fun 2)]) [Num 10],
        Invoke 2 (Obj [(''add'', Fun 1), (''sub'', Fun 2)]) [Num 3]]"
    by (simp add: numeral_nat saw_next_def saw_pop_def at_def plain_saw_def bare_def)
  from j p n r show ?thesis by blast
qed

lemma perform_throws:
  assumes "\<forall>f. follow rt h p \<noteq> Inr (Fun f)"
    and "\<forall>v g. follow rt h p = Inr v \<longrightarrow> read rt v ''apply'' \<noteq> Inr (Fun g)"
  shows "\<exists>e. perform rt h (Call p as) = Throw e
           \<and> (follow rt h p = Inr Undefined \<longrightarrow> e = TypeError)"
proof (cases "follow rt h p")
  case (Inl e)
  then show ?thesis by simp
next
  case (Inr node)
  then have nf: "\<forall>f. node \<noteq> Fun f" and na: "\<forall>g. read rt node ''apply'' \<noteq> Inr (Fun g)"
    using assms by simp_all
  have "\<exists>e. invoke rt node h as = Throw e \<and> (node = Undefined \<longrightarrow> e = TypeError)"
  proof (cases "read rt node ''apply''")
    case (Inl e)
    then show ?thesis using nf by (cases node) auto
  next
    case (Inr u)
    then show ?thesis using nf na by (cases node; cases u) auto
  qed
  then show ?thesis using Inr by simp
qed

text \<open>
  Claim C8, as amended. When the record taken by \<^verbatim>\<open>saw.next\<close> is a call whose path the
  reads of line 100 follow to something that is neither a function nor a value with a
  method \<^verbatim>\<open>apply\<close>, \<^verbatim>\<open>next\<close> throws, and it is a TypeError that it throws when the reads
  end in \<^verbatim>\<open>undefined\<close>. The record has been consumed, nothing else
  happens, and the caller of \<^verbatim>\<open>next\<close> receives the error.
\<close>

theorem unresolved_operation_throws:
  assumes "saw_pop s = (Some (Call p as), s')"
    and "rt = beyond (builder s)"
    and "\<forall>f. follow rt (handlers s) p \<noteq> Inr (Fun f)"
    and "\<forall>v g. follow rt (handlers s) p = Inr v \<longrightarrow> read rt v ''apply'' \<noteq> Inr (Fun g)"
  shows "\<exists>e. saw_next s = (Throw e, s')
       \<and> (follow rt (handlers s) p = Inr Undefined \<longrightarrow> e = TypeError)
       \<and> (\<forall>k i w. i < length (saws w) \<and> saws w ! i = s \<longrightarrow>
            call (Suc k) saw_next i w = Some (Some e, put i s' w)
            \<and> trace (put i s' w) = trace w)"
proof -
  have h: "handlers s' = handlers s" and b: "builder s' = builder s"
    using handlers_saw_pop[of s] builder_saw_pop[of s] assms(1) by simp_all
  from perform_throws[OF assms(3,4)] obtain e
    where pf: "perform rt (handlers s) (Call p as) = Throw e"
      and te: "follow rt (handlers s) p = Inr Undefined \<longrightarrow> e = TypeError"
    by blast
  have "saw_next s = (perform (beyond (builder s')) (handlers s') (Call p as), s')"
    using assms(1) by (simp add: saw_next_def del: perform.simps)
  then have n: "saw_next s = (Throw e, s')"
    using pf by (simp only: h b assms(2))
  then have "\<forall>k i w. i < length (saws w) \<and> saws w ! i = s \<longrightarrow>
            call (Suc k) saw_next i w = Some (Some e, put i s' w)
            \<and> trace (put i s' w) = trace w"
    by (simp add: put_def)
  with n te show ?thesis by blast
qed

theorem unresolved_operation_throws_witness:
  "saw_next stray_saw = (Throw TypeError, stray_saw\<lparr>actions := tl (actions stray_saw)\<rparr>)
   \<and> call 1 saw_next 0 \<lparr>saws = [stray_saw], ticks = [], trace = []\<rparr> =
       Some (Some TypeError,
             \<lparr>saws = [stray_saw\<lparr>actions := tl (actions stray_saw)\<rparr>], ticks = [], trace = []\<rparr>)
   \<and> follow plain_objects (handlers inherit_saw) [''sub''] = Inr Undefined
   \<and> saw_next (inherit_saw\<lparr>actions := [Call [''sub''] []]\<rparr>) =
       (Throw TypeError, inherit_saw\<lparr>actions := []\<rparr>)"
proof -
  let ?t = "inherit_saw\<lparr>actions := [Call [''sub''] []]\<rparr>"
  have p': "saw_pop ?t = (Some (Call [''sub''] []), inherit_saw\<lparr>actions := []\<rparr>)"
    by (simp add: saw_pop_def inherit_saw_def)
  have b': "plain_objects = beyond (builder ?t)" by (simp add: inherit_saw_def)
  have u: "follow plain_objects (handlers inherit_saw) [''sub''] = Inr Undefined"
    by (simp add: inherit_saw_def)
  have r': "\<forall>f. follow plain_objects (handlers ?t) [''sub''] \<noteq> Inr (Fun f)"
    using u by simp
  have a': "\<forall>v g. follow plain_objects (handlers ?t) [''sub''] = Inr v \<longrightarrow>
      read plain_objects v ''apply'' \<noteq> Inr (Fun g)"
    using u by simp
  from unresolved_operation_throws[OF p' b' r' a'] obtain e'
    where n': "saw_next ?t = (Throw e', inherit_saw\<lparr>actions := []\<rparr>)"
      and te: "follow plain_objects (handlers ?t) [''sub''] = Inr Undefined \<longrightarrow> e' = TypeError"
    by blast
  have "e' = TypeError" using te u by simp
  with n' have n2: "saw_next ?t = (Throw TypeError, inherit_saw\<lparr>actions := []\<rparr>)" by simp
  let ?s' = "stray_saw\<lparr>actions := tl (actions stray_saw)\<rparr>"
  let ?w = "\<lparr>saws = [stray_saw], ticks = [], trace = []\<rparr>"
  have p: "saw_pop stray_saw = (Some (Call [''n''] []), ?s')"
    by (simp add: saw_pop_def stray_saw_def)
  have b: "bare = beyond (builder stray_saw)" by (simp add: stray_saw_def)
  have r: "\<forall>f. follow bare (handlers stray_saw) [''n''] \<noteq> Inr (Fun f)"
    by (simp add: stray_saw_def)
  have a: "\<forall>v g. follow bare (handlers stray_saw) [''n''] = Inr v \<longrightarrow>
      read bare v ''apply'' \<noteq> Inr (Fun g)"
    by (simp add: stray_saw_def bare_def)
  from unresolved_operation_throws[OF p b r a] obtain e
    where n: "saw_next stray_saw = (Throw e, ?s')"
      and c: "\<forall>k i w. i < length (saws w) \<and> saws w ! i = stray_saw \<longrightarrow>
            call (Suc k) saw_next i w = Some (Some e, put i ?s' w)"
    by blast
  have "saw_next stray_saw = (Throw TypeError, ?s')"
    by (simp add: saw_next_def saw_pop_def stray_saw_def bare_def)
  with n have e: "e = TypeError" by simp
  from c have "0 < length (saws ?w) \<and> saws ?w ! 0 = stray_saw \<longrightarrow>
      call (Suc 0) saw_next 0 ?w = Some (Some e, put 0 ?s' ?w)"
    by blast
  then have "call (Suc 0) saw_next 0 ?w = Some (Some e, put 0 ?s' ?w)"
    by simp
  then have "saw_next stray_saw = (Throw TypeError, ?s')
      \<and> call 1 saw_next 0 ?w =
          Some (Some TypeError, \<lparr>saws = [?s'], ticks = [], trace = []\<rparr>)"
    using n e by (simp add: put_def)
  with u n2 show ?thesis by blast
qed

text \<open>
  Claim C8 as it is written fails where a read finds more than the builder attached.
  The handlers have the one operation \<^verbatim>\<open>add\<close>; the record names \<^verbatim>\<open>toString\<close>, which is
  no operation of theirs; \<^verbatim>\<open>next\<close> finds the function that every object inherits, calls
  it on the handlers, and returns without an error.
\<close>

theorem inherited_function_runs_counterexample:
  "operation (handlers inherit_saw) [''toString''] = None
   \<and> resolve (handlers inherit_saw) [''toString''] = Inr Undefined
   \<and> saw_pop inherit_saw = (Some (Call [''toString''] []), inherit_saw\<lparr>actions := []\<rparr>)
   \<and> saw_next inherit_saw = (Invoke 100 (Obj [(''add'', Fun 1)]) [], inherit_saw\<lparr>actions := []\<rparr>)
   \<and> call 1 saw_next 0 \<lparr>saws = [inherit_saw], ticks = [], trace = []\<rparr> =
       Some (None, \<lparr>saws = [inherit_saw\<lparr>actions := []\<rparr>], ticks = [],
                    trace = [Invoked 0 100 (Obj [(''add'', Fun 1)]) []]\<rparr>)"
proof -
  have o: "operation (handlers inherit_saw) [''toString''] = None"
    and r: "resolve (handlers inherit_saw) [''toString''] = Inr Undefined"
    by (simp_all add: operation_def inherit_saw_def)
  have p: "saw_pop inherit_saw = (Some (Call [''toString''] []), inherit_saw\<lparr>actions := []\<rparr>)"
    by (simp add: saw_pop_def inherit_saw_def)
  have n: "saw_next inherit_saw =
      (Invoke 100 (Obj [(''add'', Fun 1)]) [], inherit_saw\<lparr>actions := []\<rparr>)"
    by (simp add: saw_next_def saw_pop_def inherit_saw_def)
  have c: "call 1 saw_next 0 \<lparr>saws = [inherit_saw], ticks = [], trace = []\<rparr> =
       Some (None, \<lparr>saws = [inherit_saw\<lparr>actions := []\<rparr>], ticks = [],
                    trace = [Invoked 0 100 (Obj [(''add'', Fun 1)]) []]\<rparr>)"
    using n by (simp add: put_def emit_def)
  from o r p n c show ?thesis by blast
qed

text \<open>The other way for a record that names no function to pass without an error: the
  path ends in an object with a method \<^verbatim>\<open>apply\<close> of its own, and line 101 calls that
  method.\<close>

lemma own_apply_is_called:
  "operation (handlers settings_saw) [''cfg''] = None
   \<and> saw_next settings_saw =
       (Delegate 5 (Obj [(''apply'', Fun 5)]) (handlers settings_saw) [Num 1],
        settings_saw\<lparr>actions := []\<rparr>)"
  by (simp add: operation_def saw_next_def saw_pop_def settings_saw_def)


section \<open>Recording\<close>

text \<open>
  Claim C10. \<^verbatim>\<open>saw.record\<close> sets the cursor to 0 whatever it was, and keeps the queue.
  The \<^verbatim>\<open>pop\<close> that is then in place reads the record at the cursor and leaves the queue
  as it is, so that the next call of \<^verbatim>\<open>saw.next\<close> performs the first record of the queue
  again.
\<close>

theorem record_rewinds_to_start:
  "step (saw_record s) = Some 0
   \<and> actions (saw_record s) = actions s
   \<and> saw_pop (saw_record s) = (at (actions s) 0, (saw_record s)\<lparr>step := Some 1\<rparr>)
   \<and> actions (snd (saw_pop (saw_record s))) = actions s
   \<and> fst (saw_next (saw_record s)) =
       (case actions s of [] \<Rightarrow> EmitEnd | a # rest \<Rightarrow> perform (beyond (builder s)) (handlers s) a)"
  by (cases "actions s") (simp_all add: saw_record_def upgradeChainsaw_def saw_pop_def saw_next_def at_def)

theorem record_rewinds_to_start_witness:
  "step (snd (saw_next trapped_saw)) = Some 2
   \<and> step (saw_record (snd (saw_next trapped_saw))) = Some 0
   \<and> fst (saw_next (saw_record (snd (saw_next trapped_saw)))) =
       Invoke 1 (Obj [(''add'', Fun 1)]) [Num 5]"
proof -
  have n: "snd (saw_next trapped_saw) = trapped_saw\<lparr>step := Some 2\<rparr>"
    by (simp add: trapped_saw_def saw_next_def saw_pop_def at_def)
  have a: "actions (trapped_saw\<lparr>step := Some 2\<rparr>) =
      [Call [''add''] [Num 5], Trap [''catch''] 1 (Fun 7), Call [''sub''] []]"
    and h: "handlers (trapped_saw\<lparr>step := Some 2\<rparr>) = Obj [(''add'', Fun 1)]"
    by (simp_all add: trapped_saw_def)
  note r = record_rewinds_to_start[of "snd (saw_next trapped_saw)", unfolded n a h]
  from r show ?thesis
    unfolding n by (simp add: trapped_saw_def)
qed

lemma light_construction:
  "step (saws (snd (chainsaw_light b w)) ! length (saws w)) = None"
  by (simp add: chainsaw_light_def alloc_def saw_chain_def build_def chainsaw_saw_def Let_def)

text \<open>
  Claim C7. On a chain that has not been upgraded, \<^verbatim>\<open>trap\<close>, \<^verbatim>\<open>down\<close> and \<^verbatim>\<open>jump\<close> throw
  the error that asks for \<^verbatim>\<open>record()\<close> and leave the chain, and with it the whole store,
  as it was. \<^verbatim>\<open>saw.next\<close> does not upgrade a chain, and \<open>light_construction\<close> above says
  that \<^verbatim>\<open>chainsaw.light\<close> makes such a chain.
\<close>

theorem replay_needs_record:
  assumes "step s = None"
  shows "saw_trap nm c s = (Throw (Error record_first), s)
       \<and> saw_down nm s = (Throw (Error record_first), s)
       \<and> saw_jump st s = (Throw (Error record_first), s)
       \<and> step (snd (saw_next s)) = None
       \<and> (\<forall>k i w. i < length (saws w) \<and> saws w ! i = s \<longrightarrow>
             call (Suc k) (saw_trap nm c) i w = Some (Some (Error record_first), w)
           \<and> call (Suc k) (saw_down nm) i w = Some (Some (Error record_first), w)
           \<and> call (Suc k) (saw_jump st) i w = Some (Some (Error record_first), w))"
proof -
  have t: "saw_trap nm c s = (Throw (Error record_first), s)"
    using assms by (simp add: saw_trap_def)
  have d: "saw_down nm s = (Throw (Error record_first), s)"
    using assms by (simp add: saw_down_def)
  have j: "saw_jump st s = (Throw (Error record_first), s)"
    using assms by (simp add: saw_jump_def)
  have n: "step (snd (saw_next s)) = None"
    using step_saw_pop_light[OF assms] by (simp add: snd_saw_next)
  have w: "\<forall>k i w. i < length (saws w) \<and> saws w ! i = s \<longrightarrow>
             call (Suc k) (saw_trap nm c) i w = Some (Some (Error record_first), w)
           \<and> call (Suc k) (saw_down nm) i w = Some (Some (Error record_first), w)
           \<and> call (Suc k) (saw_jump st) i w = Some (Some (Error record_first), w)"
    using t d j put_same by auto
  from t d j n w show ?thesis by blast
qed

theorem replay_needs_record_witness:
  "step (saws (snd (chainsaw_light example_builder empty_world)) ! 0) = None
   \<and> call 1 (saw_jump 0) 0 (snd (chainsaw_light example_builder empty_world)) =
       Some (Some (Error record_first), snd (chainsaw_light example_builder empty_world))
   \<and> fst (saw_down (Single ''add'') (saws (snd (chainsaw_light example_builder empty_world)) ! 0)) =
       Throw (Error record_first)"
proof -
  let ?w = "snd (chainsaw_light example_builder empty_world)"
  have l: "step (saws ?w ! 0) = None"
    using light_construction[of example_builder empty_world] by (simp add: empty_world_def)
  have n: "0 < length (saws ?w)"
    by (simp add: chainsaw_light_def alloc_def saw_chain_def empty_world_def)
  from replay_needs_record[OF l, of "Single ''add''" _ 0] n
  have "call (Suc 0) (saw_jump 0) 0 ?w = Some (Some (Error record_first), ?w)"
    and "saw_down (Single ''add'') (saws ?w ! 0) = (Throw (Error record_first), saws ?w ! 0)"
    by blast+
  then show ?thesis using l by simp
qed

section \<open>Order of execution\<close>

lemma record_of_pair: "record_of (p, as) = Call p as"
  by (simp add: record_of_def)

lemma operation_Some: "operation h p = Some f \<longleftrightarrow> resolve h p = Inr (Fun f)"
  by (auto simp: operation_def split: sum.splits jsval.splits)

lemma perform_operation:
  "operation h p = Some f \<Longrightarrow> perform rt h (Call p as) = Invoke f h as"
  by (simp add: operation_Some follow_resolve)

lemma fluents_proxied:
  assumes "\<forall>c \<in> set calls. fst c \<noteq> [] \<and> operation h (fst c) \<noteq> None"
    and "i < length (saws w)"
  shows "fluents rt (walk i [] h) calls w =
           put i ((saws w ! i)\<lparr>actions := actions (saws w ! i) @ map record_of calls\<rparr>) w"
  using assms
proof (induction calls arbitrary: w)
  case Nil
  then show ?case by (simp add: put_def)
next
  case (Cons c cs)
  obtain p as where c: "c = (p, as)" by fastforce
  from Cons.prems(1) c obtain f where f: "resolve h p = Inr (Fun f)" and p: "p \<noteq> []"
    by (auto simp: operation_Some)
  let ?w = "put i ((saws w ! i)\<lparr>actions := actions (saws w ! i) @ [Call p as]\<rparr>) w"
  have st: "snd (fluent rt (walk i [] h) p as w) = ?w"
    using fluent_proxied[OF f p, of rt i as w] by simp
  have len: "i < length (saws ?w)" using Cons.prems(2) by (simp add: put_def)
  have "fluents rt (walk i [] h) cs ?w =
          put i ((saws ?w ! i)\<lparr>actions := actions (saws ?w ! i) @ map record_of cs\<rparr>) ?w"
    using Cons.IH[OF _ len] Cons.prems(1) by simp
  then show ?case using Cons.prems(2) c st
    by (simp add: put_def record_of_pair)
qed

lemma run_light:
  "step s = None \<Longrightarrow> n \<le> length (actions s) \<Longrightarrow>
     run n s = (map (perform (beyond (builder s)) (handlers s)) (take n (actions s)), s\<lparr>actions := drop n (actions s)\<rparr>)"
proof (induction n arbitrary: s)
  case 0
  then show ?case by simp
next
  case (Suc n)
  then obtain a rest where q: "actions s = a # rest" by (cases "actions s") auto
  let ?s = "s\<lparr>actions := rest\<rparr>"
  have nx: "saw_next s = (perform (beyond (builder s)) (handlers s) a, ?s)"
    using Suc.prems(1) q by (simp add: saw_next_def saw_pop_def del: perform.simps)
  have "run n ?s = (map (perform (beyond (builder ?s)) (handlers ?s)) (take n (actions ?s)), ?s\<lparr>actions := drop n (actions ?s)\<rparr>)"
    using Suc.IH[of ?s] Suc.prems q by simp
  then show ?case using nx q by (simp del: perform.simps)
qed

lemma perform_calls:
  assumes "\<forall>c \<in> set cs. operation h (fst c) \<noteq> None"
  shows "map (perform rt h) (map record_of cs) =
           map (\<lambda>c. Invoke (the (operation h (fst c))) h (snd c)) cs"
  using assms
  by (induction cs) (auto simp: record_of_def operation_Some simp del: perform.simps
        intro!: perform_operation)

text \<open>
  Claim C2. Take a light chain with an empty queue, and any burst of fluent calls on
  the surface of \<^verbatim>\<open>saw.chain\<close>, each naming an operation of the handlers. The burst runs
  nothing and leaves one record per call in the queue, in the order of the calls. Then
  \<open>n\<close> calls of \<^verbatim>\<open>saw.next\<close> invoke the operations of the first \<open>n\<close> calls, in that order,
  each once, with the handlers as \<^verbatim>\<open>this\<close> and the arguments of the call; the queue that
  remains is the records of the other calls, so every \<^verbatim>\<open>next\<close> has removed the record at
  the front. After as many calls of \<^verbatim>\<open>next\<close> as there were fluent calls, the queue is
  empty and one more \<^verbatim>\<open>next\<close> signals the end.
\<close>

theorem light_chain_runs_calls_in_order:
  assumes "i < length (saws w)"
    and "step (saws w ! i) = None"
    and "actions (saws w ! i) = []"
    and "h = handlers (saws w ! i)"
    and "\<forall>c \<in> set calls. fst c \<noteq> [] \<and> operation h (fst c) \<noteq> None"
    and "w' = fluents rt (fst (saw_chain i w)) calls (snd (saw_chain i w))"
    and "s = saws w' ! i"
    and "n \<le> length calls"
  shows "trace w' = trace w
       \<and> actions s = map record_of calls
       \<and> fst (run n s) = map (\<lambda>c. Invoke (the (operation h (fst c))) h (snd c)) (take n calls)
       \<and> actions (snd (run n s)) = map record_of (drop n calls)
       \<and> saw_next (snd (run (length calls) s)) = (EmitEnd, snd (run (length calls) s))"
proof -
  let ?w1 = "snd (saw_chain i w)"
  have w1: "?w1 = w\<lparr>ticks := ticks w @ [i]\<rparr>" and ch: "fst (saw_chain i w) = walk i [] h"
    using assms(4) by (simp_all add: saw_chain_def)
  have len: "i < length (saws ?w1)" using assms(1) w1 by simp
  have w': "w' = put i ((saws ?w1 ! i)\<lparr>actions := actions (saws ?w1 ! i) @ map record_of calls\<rparr>) ?w1"
    using fluents_proxied[OF assms(5) len] assms(6) ch by simp
  have s: "s = (saws w ! i)\<lparr>actions := map record_of calls\<rparr>"
    using w' w1 assms(1,3,7) by (simp add: put_def)
  have light: "step s = None" and hs: "handlers s = h" and q: "actions s = map record_of calls"
    using s assms(2,4) by simp_all
  have tr: "trace w' = trace w" using w' w1 by (simp add: put_def)
  have r: "\<And>m. m \<le> length calls \<Longrightarrow>
      run m s = (map (perform (beyond (builder s)) h) (map record_of (take m calls)),
                 s\<lparr>actions := map record_of (drop m calls)\<rparr>)"
    using run_light[OF light] q hs by (simp add: take_map drop_map)
  have sub: "\<forall>c \<in> set (take n calls). operation h (fst c) \<noteq> None"
    using assms(5) by (meson in_set_takeD)
  have e: "fst (run n s) = map (\<lambda>c. Invoke (the (operation h (fst c))) h (snd c)) (take n calls)"
    using r[OF assms(8)] perform_calls[OF sub] by simp
  have d: "actions (snd (run n s)) = map record_of (drop n calls)"
    using r[OF assms(8)] by simp
  have fin: "snd (run (length calls) s) = s\<lparr>actions := []\<rparr>"
    using r[of "length calls"] by simp
  have "saw_next (s\<lparr>actions := []\<rparr>) = (EmitEnd, s\<lparr>actions := []\<rparr>)"
    using light by (simp add: saw_next_def saw_pop_def)
  with fin have z: "saw_next (snd (run (length calls) s)) = (EmitEnd, snd (run (length calls) s))"
    by simp
  from tr q e d z show ?thesis by blast
qed

theorem light_chain_runs_calls_in_order_witness:
  "(let w = fluents plain_surfaces (fst (chainsaw_light example_builder empty_world)) example_calls
              (snd (chainsaw_light example_builder empty_world));
        h = Obj [(''add'', Fun 1), (''do'', Fun 2)]
    in fst (run 3 (saws w ! 0)) = [Invoke 1 h [Num 5], Invoke 1 h [Num 10], Invoke 2 h [Fun 9]]
     \<and> actions (saws w ! 0) = [Call [''add''] [Num 5], Call [''add''] [Num 10], Call [''do''] [Fun 9]]
     \<and> actions (snd (run 3 (saws w ! 0))) = []
     \<and> trace w = [])"
proof -
  let ?w0 = "\<lparr>saws = [light_saw], ticks = [], trace = []\<rparr>"
  let ?h = "Obj [(''add'', Fun 1), (''do'', Fun 2)] :: fid jsval"
  have c: "chainsaw_light example_builder empty_world = saw_chain 0 ?w0"
    by (simp add: chainsaw_light_def alloc_def empty_world_def light_saw_def)
  have ls: "light_saw = \<lparr>builder = example_builder, handlers = ?h, actions = [], step = None, on_end = []\<rparr>"
    by (simp add: light_saw_def build_def chainsaw_saw_def example_builder_def Let_def)
  have a1: "0 < length (saws ?w0)" by simp
  have a2: "step (saws ?w0 ! 0) = None" and a3: "actions (saws ?w0 ! 0) = []"
    and a4: "?h = handlers (saws ?w0 ! 0)"
    by (simp_all add: ls)
  have a5: "\<forall>c \<in> set example_calls. fst c \<noteq> [] \<and> operation ?h (fst c) \<noteq> None"
    by (simp add: example_calls_def operation_def)
  have a8: "3 \<le> length example_calls" by (simp add: example_calls_def)
  note t = light_chain_runs_calls_in_order[OF a1 a2 a3 a4 a5 refl refl a8]
  have d: "drop 3 example_calls = []" and k: "take 3 example_calls = example_calls"
    by (simp_all add: example_calls_def)
  from t show ?thesis
    unfolding c Let_def d k
    by (simp add: example_calls_def operation_def record_of_def)
qed

lemma saw_next_recording:
  "step s = Some c \<Longrightarrow>
     saw_next s = ((case at (actions s) c of None \<Rightarrow> EmitEnd | Some a \<Rightarrow> perform (beyond (builder s)) (handlers s) a),
                   s\<lparr>step := Some (c + 1)\<rparr>)"
  by (simp add: saw_next_def saw_pop_def split: option.splits del: perform.simps)

lemma run_recording:
  "step s = Some c \<Longrightarrow>
     run k s = (map (\<lambda>j. case at (actions s) (c + int j) of None \<Rightarrow> EmitEnd
                                | Some a \<Rightarrow> perform (beyond (builder s)) (handlers s) a) [0..<k],
                s\<lparr>step := Some (c + int k)\<rparr>)"
proof (induction k arbitrary: s c)
  case 0
  then show ?case by simp
next
  case (Suc k)
  let ?s = "s\<lparr>step := Some (c + 1)\<rparr>"
  have st: "step ?s = Some (c + 1)" by simp
  have "c + 1 + int j = c + int (Suc j)" for j by simp
  then show ?case
    using Suc.IH[OF st] saw_next_recording[OF Suc.prems]
    by (simp add: map_upt_Suc add.assoc del: upt_Suc perform.simps cong: option.case_cong)
qed

lemma step_update_same: "step s = v \<Longrightarrow> s\<lparr>step := v\<rparr> = s"
  by (cases s) simp

lemma first_pass:
  assumes "step s = Some 0"
  shows "fst (run (Suc (length (actions s))) s) = map (perform (beyond (builder s)) (handlers s)) (actions s) @ [EmitEnd]"
proof -
  let ?f = "\<lambda>j. case at (actions s) (0 + int j) of None \<Rightarrow> EmitEnd | Some a \<Rightarrow> perform (beyond (builder s)) (handlers s) a"
  have "map ?f [0..<length (actions s)] = map (\<lambda>j. perform (beyond (builder s)) (handlers s) (actions s ! j)) [0..<length (actions s)]"
    by (rule map_cong) (simp_all add: at_def del: perform.simps)
  also have "\<dots> = map (perform (beyond (builder s)) (handlers s)) (actions s)"
    using map_nth[of "actions s"] map_map[of "perform (beyond (builder s)) (handlers s)" "(!) (actions s)" "[0..<length (actions s)]"]
    by (simp add: comp_def del: perform.simps)
  finally have "map ?f [0..<length (actions s)] = map (perform (beyond (builder s)) (handlers s)) (actions s)" .
  moreover have "?f (length (actions s)) = EmitEnd" by (simp add: at_def)
  ultimately show ?thesis
    using run_recording[OF assms, of "Suc (length (actions s))"] by (simp del: perform.simps)
qed

text \<open>
  Claim C5. In a recording chain \<^verbatim>\<open>saw.next\<close> keeps the queue and moves the cursor on by
  one. So when the cursor starts at 0, no number of calls of \<^verbatim>\<open>saw.next\<close> changes the
  queue, and the cursor counts the calls. One call more than the
  queue is long performs every record in order and ends with the end signal. After
  that, \<^verbatim>\<open>saw.jump(0)\<close> followed by as many calls of \<^verbatim>\<open>saw.next\<close> as the queue is long does
  the same things again, in the same order, and the queue is still the one the chain
  started with.
\<close>

theorem recording_chain_replays:
  assumes "step s = Some 0" and "n = length (actions s)"
  shows "(\<forall>t c. step t = Some c \<longrightarrow>
            actions (snd (saw_next t)) = actions t \<and> step (snd (saw_next t)) = Some (c + 1))
       \<and> (\<forall>k. actions (snd (run k s)) = actions s \<and> step (snd (run k s)) = Some (int k))
       \<and> fst (run (Suc n) s) = map (perform (beyond (builder s)) (handlers s)) (actions s) @ [EmitEnd]
       \<and> fst (saw_jump 0 (snd (run (Suc n) s))) # fst (run n (snd (saw_jump 0 (snd (run (Suc n) s)))))
           = fst (run (Suc n) s)
       \<and> actions (snd (run n (snd (saw_jump 0 (snd (run (Suc n) s)))))) = actions s"
proof -
  have g: "\<forall>t c. step t = Some c \<longrightarrow>
            actions (snd (saw_next t)) = actions t \<and> step (snd (saw_next t)) = Some (c + 1)"
    using saw_next_recording by simp
  have a: "\<forall>k. actions (snd (run k s)) = actions s \<and> step (snd (run k s)) = Some (int k)"
    using run_recording[OF assms(1)] by simp
  have b: "fst (run (Suc n) s) = map (perform (beyond (builder s)) (handlers s)) (actions s) @ [EmitEnd]"
    using first_pass[OF assms(1)] assms(2) by simp
  have e: "snd (run (Suc n) s) = s\<lparr>step := Some (int (Suc n))\<rparr>"
    using run_recording[OF assms(1), of "Suc n"] by simp
  have j: "saw_jump 0 (snd (run (Suc n) s)) = saw_next s"
    unfolding e using step_update_same[OF assms(1)] by (simp add: saw_jump_def)
  have c: "fst (saw_next s) # fst (run n (snd (saw_next s))) = fst (run (Suc n) s)"
    by (simp add: split_def)
  have st: "step (snd (saw_next s)) = Some 1"
    using saw_next_recording[OF assms(1)] by simp
  have d: "actions (snd (run n (snd (saw_next s)))) = actions s"
    using run_recording[OF st, of n] saw_next_recording[OF assms(1)] by simp
  from g a b c d show ?thesis unfolding j by blast
qed

theorem recording_chain_replays_witness:
  "(let s = trapped_saw\<lparr>step := Some 0\<rparr>; h = Obj [(''add'', Fun 1)];
        es = [Invoke 1 h [Num 5], Nothing, Throw TypeError, EmitEnd]
    in fst (run 4 s) = es
     \<and> actions (snd (run 4 s)) = actions trapped_saw
     \<and> fst (saw_jump 0 (snd (run 4 s))) # fst (run 3 (snd (saw_jump 0 (snd (run 4 s))))) = es)"
proof -
  let ?s = "trapped_saw\<lparr>step := Some 0\<rparr>"
  have a1: "step ?s = Some 0" by simp
  have a2: "3 = length (actions ?s)" by (simp add: trapped_saw_def)
  have n: "Suc 3 = 4" by simp
  note t = recording_chain_replays[OF a1 a2, unfolded n]
  have p: "map (perform (beyond (builder ?s)) (handlers ?s)) (actions ?s) @ [EmitEnd] =
      [Invoke 1 (Obj [(''add'', Fun 1)]) [Num 5], Nothing, Throw TypeError, EmitEnd]"
    by (simp add: trapped_saw_def bare_def)
  from t have "fst (run 4 ?s) = map (perform (beyond (builder ?s)) (handlers ?s)) (actions ?s) @ [EmitEnd]"
    and "actions (snd (run 4 ?s)) = actions ?s"
    and "fst (saw_jump 0 (snd (run 4 ?s))) # fst (run 3 (snd (saw_jump 0 (snd (run 4 ?s)))))
           = fst (run 4 ?s)"
    by blast+
  then show ?thesis unfolding Let_def p by simp
qed

section \<open>Nesting\<close>

subsection \<open>Calls on an ordered store return\<close>

lemma on_end_saw_pop: "on_end (snd (saw_pop s)) = on_end s"
  by (simp add: saw_pop_def split: option.splits list.splits)

lemma on_end_saw_next: "on_end (snd (saw_next s)) = on_end s"
  by (simp add: snd_saw_next on_end_saw_pop)

lemma ordered_iff:
  "ordered w \<longleftrightarrow> (\<forall>j < length (saws w). list_all (older j) (on_end (saws w ! j)))"
proof
  assume o: "ordered w"
  show "\<forall>j < length (saws w). list_all (older j) (on_end (saws w ! j))"
  proof (intro allI impI)
    fix j assume "j < length (saws w)"
    then have "(j, saws w ! j) \<in> set (enumerate 0 (saws w))"
      by (simp add: in_set_enumerate_eq)
    with o show "list_all (older j) (on_end (saws w ! j))"
      unfolding ordered_def list_all_iff by fastforce
  qed
next
  assume "\<forall>j < length (saws w). list_all (older j) (on_end (saws w ! j))"
  then show "ordered w"
    unfolding ordered_def list_all_iff by (auto simp: in_set_enumerate_eq)
qed

lemma ordered_put:
  assumes "ordered w" and "on_end s = on_end (saws w ! i)"
  shows "ordered (put i s w)"
  unfolding ordered_iff put_def
proof (intro allI impI)
  fix j assume j: "j < length (saws (w\<lparr>saws := (saws w)[i := s]\<rparr>))"
  then have "list_all (older j) (on_end (saws w ! j))"
    using assms(1) by (simp add: ordered_iff)
  then show "list_all (older j) (on_end (saws (w\<lparr>saws := (saws w)[i := s]\<rparr>) ! j))"
    using assms(2) j by (cases "j = i") simp_all
qed

lemma ordered_emit: "ordered (emit ev w) = ordered w"
  by (simp add: ordered_iff emit_def)

lemma notify_returns:
  assumes all: "\<And>p w. p < b \<Longrightarrow> ordered w \<Longrightarrow> length (saws w) = n \<Longrightarrow> p < n \<Longrightarrow>
            \<exists>r w'. call k saw_next p w = Some (r, w') \<and> ordered w' \<and> length (saws w') = n"
  shows "list_all (older b) ls \<Longrightarrow> ordered w \<Longrightarrow> length (saws w) = n \<Longrightarrow> b \<le> n \<Longrightarrow>
           \<exists>r w'. notify k ls w = Some (r, w') \<and> ordered w' \<and> length (saws w') = n"
proof (induction ls arbitrary: w)
  case Nil
  then show ?case by simp
next
  case (Cons l ls)
  obtain p where l: "l = NextOf p" by (cases l)
  then have p: "p < b" using Cons.prems(1) by simp
  then have "p < n" using Cons.prems(4) by simp
  from all[OF p Cons.prems(2,3) this] obtain r1 w1
    where c: "call k saw_next p w = Some (r1, w1)" and o: "ordered w1" and n: "length (saws w1) = n"
    by blast
  show ?case
  proof (cases r1)
    case None
    from Cons.IH[OF _ o n Cons.prems(4)] Cons.prems(1)
    obtain r w' where "notify k ls w1 = Some (r, w')" "ordered w'" "length (saws w') = n"
      by auto
    then show ?thesis using c l None by simp
  next
    case (Some e)
    then show ?thesis using c l o n by simp
  qed
qed

lemma call_Suc:
  "i < length (saws w) \<Longrightarrow> m (saws w ! i) = (e, s') \<Longrightarrow>
     call (Suc k) m i w =
       (case e of
          Nothing \<Rightarrow> Some (None, put i s' w)
        | Throw err \<Rightarrow> Some (Some err, put i s' w)
        | Invoke f this as \<Rightarrow> Some (None, emit (Invoked i f this as) (put i s' w))
        | Delegate g node this as \<Rightarrow> Some (None, emit (Delegated i g node this as) (put i s' w))
        | Fire f \<Rightarrow> Some (None, emit (Fired i f) (put i s' w))
        | EmitEnd \<Rightarrow> notify k (on_end s') (emit (Emitted i ''end'') (put i s' w)))"
  by (cases e) simp_all

lemma call_returns:
  "i < k \<Longrightarrow> ordered w \<Longrightarrow> i < length (saws w) \<Longrightarrow> (\<And>s. on_end (snd (m s)) = on_end s) \<Longrightarrow>
     \<exists>r w'. call k m i w = Some (r, w') \<and> ordered w' \<and> length (saws w') = length (saws w)"
proof (induction k arbitrary: i w m)
  case 0
  then show ?case by simp
next
  case (Suc k)
  obtain e s' where m: "m (saws w ! i) = (e, s')"
    by (metis surj_pair)
  note c = call_Suc[where m=m and i=i and w=w and k=k, OF Suc.prems(3) m]
  have oe: "on_end s' = on_end (saws w ! i)" using Suc.prems(4)[of "saws w ! i"] m by simp
  have op: "ordered (put i s' w)" using ordered_put[OF Suc.prems(2) oe] .
  have lp: "length (saws (put i s' w)) = length (saws w)" by (simp add: put_def)
  have oq: "ordered (emit ev (put i s' w))" for ev using op by (simp add: ordered_emit)
  have lq: "length (saws (emit ev (put i s' w))) = length (saws w)" for ev
    using lp by (simp add: emit_def)
  show ?case
  proof (cases e)
    case Nothing
    then show ?thesis using c op lp by (simp del: call.simps)
  next
    case (Throw err)
    then show ?thesis using c op lp by (simp del: call.simps)
  next
    case (Invoke f this as)
    then show ?thesis using c oq lq by (simp del: call.simps)
  next
    case (Delegate g node this as)
    then show ?thesis using c oq lq by (simp del: call.simps)
  next
    case (Fire f)
    then show ?thesis using c oq lq by (simp del: call.simps)
  next
    case EmitEnd
    let ?w = "emit (Emitted i ''end'') (put i s' w)"
    have ls: "list_all (older i) (on_end s')"
      using Suc.prems(2,3) oe by (simp add: ordered_iff)
    have all: "\<exists>r w'. call k saw_next p v = Some (r, w') \<and> ordered w' \<and> length (saws w') = length (saws w)"
      if "p < i" "ordered v" "length (saws v) = length (saws w)" "p < length (saws w)" for p v
    proof -
      have pk: "p < k" using that(1) Suc.prems(1) by simp
      have pl: "p < length (saws v)" using that(3,4) by simp
      have "\<exists>r w'. call k saw_next p v = Some (r, w') \<and> ordered w' \<and> length (saws w') = length (saws v)"
        by (rule Suc.IH[OF pk that(2) pl]) (rule on_end_saw_next)
      then show ?thesis using that(3) by simp
    qed
    have "i \<le> length (saws w)" using Suc.prems(3) by simp
    from notify_returns[of i "length (saws w)" k, OF all ls oq lq this]
    have "\<exists>r w'. notify k (on_end s') ?w = Some (r, w') \<and> ordered w' \<and> length (saws w') = length (saws w)"
      by blast
    then show ?thesis using c EmitEnd by (simp del: call.simps)
  qed
qed

subsection \<open>The methods keep the listeners\<close>

lemma on_end_saw_down: "on_end (snd (saw_down nm s)) = on_end s"
proof (cases "step s")
  case None
  then show ?thesis by (simp add: saw_down_def)
next
  case (Some cur)
  let ?c = "seek (join (as_path nm)) cur (actions s)"
  have n: "on_end (snd (saw_next (s\<lparr>step := Some ?c\<rparr>))) = on_end s"
    using on_end_saw_next[of "s\<lparr>step := Some ?c\<rparr>"] by simp
  show ?thesis
  proof (cases "at (actions s) (?c - 1)")
    case None
    then show ?thesis using Some n by (simp add: saw_down_def Let_def)
  next
    case (Some a)
    then show ?thesis using \<open>step s = Some cur\<close> n
      by (cases a) (simp_all add: saw_down_def Let_def)
  qed
qed

lemma on_end_saw_jump: "on_end (snd (saw_jump st s)) = on_end s"
  using on_end_saw_next[of "s\<lparr>step := Some st\<rparr>"]
  by (simp add: saw_jump_def split: option.splits)

lemma on_end_saw_trap: "on_end (snd (saw_trap nm c s)) = on_end s"
  by (simp add: saw_trap_def split: option.splits)

lemma on_end_rewind: "on_end (snd (rewind s)) = on_end s"
  by (simp add: rewind_def saw_record_def upgradeChainsaw_def)

subsection \<open>What \<^verbatim>\<open>saw.nest\<close> sets up\<close>

lemma nest_args_autonext:
  "fst (nest_args argv) = (case argv of Bool b # rest \<Rightarrow> b | _ \<Rightarrow> True)"
  by (auto simp: nest_args_def Let_def split: list.splits jsval.splits)

lemma nest_enter_Entered:
  assumes "nest_enter i argv w = Entered c f ch xs an w1"
  shows "fst (nest_args argv) = an"
    and "c = length (saws w)"
    and "w1 = w\<lparr>saws := saws w @ [nested_saw (saws w ! i)], ticks := ticks w @ [length (saws w)]\<rparr>"
    and "ch = walk (length (saws w)) [] (handlers (nested_saw (saws w ! i)))"
proof -
  obtain a g ys where n: "nest_args argv = (a, g, ys)" by (metis prod_cases3)
  from assms n
  show "fst (nest_args argv) = an" and "c = length (saws w)"
    and "w1 = w\<lparr>saws := saws w @ [nested_saw (saws w ! i)], ticks := ticks w @ [length (saws w)]\<rparr>"
    and "ch = walk (length (saws w)) [] (handlers (nested_saw (saws w ! i)))"
    by (auto simp add: nest_enter_def alloc_def saw_chain_def split: jsval.splits sum.splits)
qed

lemma nested_saw_fresh:
  "actions (nested_saw p) = []" "on_end (nested_saw p) = []"
  "step (nested_saw p) = (if step p = None then None else Some 0)"
  "builder (nested_saw p) = builder p"
  by (simp_all add: nested_saw_def build_def chainsaw_saw_def saw_record_def upgradeChainsaw_def Let_def)

lemma notify_one: "notify k [NextOf i] w = call k saw_next i w"
  by (auto split: option.splits)

lemma ordered_alloc:
  assumes "ordered w" and "on_end s = []"
  shows "ordered (w\<lparr>saws := saws w @ [s], ticks := t\<rparr>)"
  unfolding ordered_iff
proof (intro allI impI)
  fix j assume "j < length (saws (w\<lparr>saws := saws w @ [s], ticks := t\<rparr>))"
  then have "j < length (saws w) \<or> j = length (saws w)" by auto
  then show "list_all (older j) (on_end (saws (w\<lparr>saws := saws w @ [s], ticks := t\<rparr>) ! j))"
    using assms by (auto simp: ordered_iff nth_append)
qed

lemma ordered_nest_leave:
  assumes "ordered v" and "c < length (saws v)" and "i < c"
  shows "ordered (nest_leave i c an v)"
  unfolding ordered_iff
proof (intro allI impI)
  fix j assume "j < length (saws (nest_leave i c an v))"
  then have j: "j < length (saws v)" by (simp add: nest_leave_def put_def split: if_splits)
  then have "list_all (older j) (on_end (saws v ! j))" using assms(1) by (simp add: ordered_iff)
  then show "list_all (older j) (on_end (saws (nest_leave i c an v) ! j))"
    using assms(2,3) j by (cases "j = c") (simp_all add: nest_leave_def put_def)
qed

lemma nested_saw_parent:
  "nested_saw parent_saw =
     \<lparr>builder = example_builder, handlers = Obj (attaches example_builder), actions = [],
      step = Some 0, on_end = []\<rparr>"
  by (simp add: nested_saw_def parent_saw_def build_def chainsaw_saw_def saw_record_def
      upgradeChainsaw_def example_builder_def Let_def)

lemma nested_saw_light:
  "nested_saw light_saw =
     \<lparr>builder = example_builder, handlers = Obj (attaches example_builder), actions = [],
      step = None, on_end = []\<rparr>"
  by (simp add: nested_saw_def light_saw_def build_def chainsaw_saw_def example_builder_def Let_def)

subsection \<open>What a call leaves as it was\<close>

lemma listeners_put:
  assumes "on_end s' = on_end (saws w ! j)"
  shows "map on_end (saws (put j s' w)) = map on_end (saws w)"
proof (cases "j < length (saws w)")
  case True
  have "map on_end ((saws w)[j := s']) = (map on_end (saws w))[j := on_end s']"
    by (rule map_update)
  also have "\<dots> = map on_end (saws w)"
    using True assms by (simp add: list_update_same_conv)
  finally show ?thesis by (simp add: put_def)
next
  case False
  then show ?thesis by (simp add: put_def list_update_beyond)
qed

lemma call_frame:
  "call k m j w = Some (r, w') \<Longrightarrow> (\<And>s. on_end (snd (m s)) = on_end s) \<Longrightarrow>
     map on_end (saws w') = map on_end (saws w) \<and> ticks w' = ticks w
     \<and> (\<exists>evs. trace w' = trace w @ evs)"
  "notify k ls w = Some (r, w') \<Longrightarrow>
     map on_end (saws w') = map on_end (saws w) \<and> ticks w' = ticks w
     \<and> (\<exists>evs. trace w' = trace w @ evs)"
proof (induction k m j w and k ls w arbitrary: r w' and r w' rule: call_notify.induct)
  case (1 m i w)
  then show ?case by simp
next
  case (2 k m i w)
  show ?case
  proof (cases "i < length (saws w)")
    case False
    with "2.prems" show ?thesis by simp
  next
    case True
    obtain e s' where m: "m (saws w ! i) = (e, s')" by (metis surj_pair)
    have oe: "on_end s' = on_end (saws w ! i)" using "2.prems"(2)[of "saws w ! i"] m by simp
    note lp = listeners_put[OF oe]
    note c = call_Suc[where m=m and i=i and w=w and k=k, OF True m]
    show ?thesis
    proof (cases e)
      case EmitEnd
      let ?w = "emit (Emitted i ''end'') (put i s' w)"
      have n: "notify k (on_end s') ?w = Some (r, w')"
        using "2.prems"(1) c EmitEnd by (simp del: call.simps)
      have "map on_end (saws w') = map on_end (saws ?w) \<and> ticks w' = ticks ?w
          \<and> (\<exists>evs. trace w' = trace ?w @ evs)"
        using "2.IH"[OF True _ _ n] m EmitEnd by simp
      then show ?thesis using lp by (auto simp: emit_def put_def)
    qed (use "2.prems"(1) c lp in \<open>auto simp: emit_def put_def simp del: call.simps\<close>)
  qed
next
  case (3 k w)
  then show ?case by simp
next
  case (4 k j ls w)
  show ?case
  proof (cases "call k saw_next j w")
    case None
    with "4.prems" show ?thesis by simp
  next
    case (Some a)
    obtain r1 w1 where a: "a = (r1, w1)" by (metis surj_pair)
    have f1: "map on_end (saws w1) = map on_end (saws w) \<and> ticks w1 = ticks w
        \<and> (\<exists>evs. trace w1 = trace w @ evs)"
      using "4.IH"(1)[of r1 w1] Some a on_end_saw_next by simp
    show ?thesis
    proof (cases r1)
      case None
      then have n: "notify k ls w1 = Some (r, w')" using "4.prems" Some a by simp
      have "map on_end (saws w') = map on_end (saws w1) \<and> ticks w' = ticks w1
          \<and> (\<exists>evs. trace w' = trace w1 @ evs)"
        using "4.IH"(2)[OF _ _ _ n] Some a None by simp
      then show ?thesis using f1 by auto
    next
      case (Some e)
      then show ?thesis using "4.prems" \<open>call k saw_next j w = Some a\<close> a f1 by simp
    qed
  qed
qed

lemma listeners_nth:
  assumes "map on_end (saws w') = map on_end (saws w)"
  shows "length (saws w') = length (saws w)"
    and "q < length (saws w) \<Longrightarrow> on_end (saws w' ! q) = on_end (saws w ! q)"
proof -
  show l: "length (saws w') = length (saws w)"
    using assms by (metis length_map)
  show "on_end (saws w' ! q) = on_end (saws w ! q)" if "q < length (saws w)"
    using that l assms by (metis nth_map)
qed

text \<open>
  The heart of the matter. A call of a method of a chain other than \<open>i\<close>, with all that
  the \<^verbatim>\<open>end\<close> events in it set off, leaves the chain \<open>i\<close> as it was and adds no entry of
  \<open>i\<close> to the trace, unless a chain that holds the \<^verbatim>\<open>next\<close> of \<open>i\<close> among its listeners
  emits \<^verbatim>\<open>end\<close> in it.
\<close>

lemma call_quiet:
  "call k m j w = Some (r, w') \<Longrightarrow> (\<And>s. on_end (snd (m s)) = on_end s) \<Longrightarrow> j \<noteq> i \<Longrightarrow>
     trace w' = trace w @ evs \<Longrightarrow>
     (\<forall>q < length (saws w). NextOf i \<in> set (on_end (saws w ! q)) \<longrightarrow> Emitted q ''end'' \<notin> set evs) \<Longrightarrow>
     saws w' ! i = saws w ! i \<and> (\<forall>ev \<in> set evs. chain_of ev \<noteq> i)"
  "notify k ls w = Some (r, w') \<Longrightarrow> NextOf i \<notin> set ls \<Longrightarrow>
     trace w' = trace w @ evs \<Longrightarrow>
     (\<forall>q < length (saws w). NextOf i \<in> set (on_end (saws w ! q)) \<longrightarrow> Emitted q ''end'' \<notin> set evs) \<Longrightarrow>
     saws w' ! i = saws w ! i \<and> (\<forall>ev \<in> set evs. chain_of ev \<noteq> i)"
proof (induction k m j w and k ls w arbitrary: r w' evs and r w' evs rule: call_notify.induct)
  case (1 m j w)
  then show ?case by simp
next
  case (2 k m j w)
  show ?case
  proof (cases "j < length (saws w)")
    case False
    with "2.prems" show ?thesis by simp
  next
    case True
    obtain e s' where m: "m (saws w ! j) = (e, s')" by (metis surj_pair)
    have oe: "on_end s' = on_end (saws w ! j)" using "2.prems"(2)[of "saws w ! j"] m by simp
    note c = call_Suc[where m=m and i=j and w=w and k=k, OF True m]
    have pi: "saws (put j s' w) ! i = saws w ! i" using "2.prems"(3) by (simp add: put_def)
    show ?thesis
    proof (cases e)
      case EmitEnd
      let ?w = "emit (Emitted j ''end'') (put j s' w)"
      have n: "notify k (on_end s') ?w = Some (r, w')"
        using "2.prems"(1) c EmitEnd by (simp del: call.simps)
      from call_frame(2)[OF n] obtain evs1 where t1: "trace w' = trace ?w @ evs1" by blast
      have tw: "trace ?w = trace w @ [Emitted j ''end'']" by (simp add: emit_def put_def)
      have evs: "evs = Emitted j ''end'' # evs1"
        using "2.prems"(4) t1 tw by simp
      have nh: "NextOf i \<notin> set (on_end s')"
        using "2.prems"(5) True evs oe by auto
      have lw: "map on_end (saws ?w) = map on_end (saws w)"
        using listeners_put[OF oe] by (simp add: emit_def)
      have hyp: "\<forall>q < length (saws ?w). NextOf i \<in> set (on_end (saws ?w ! q)) \<longrightarrow>
          Emitted q ''end'' \<notin> set evs1"
        using "2.prems"(5) evs listeners_nth[OF lw] by auto
      have "saws w' ! i = saws ?w ! i \<and> (\<forall>ev \<in> set evs1. chain_of ev \<noteq> i)"
        using "2.IH"[OF True _ _ n nh t1 hyp] m EmitEnd by simp
      moreover have "saws ?w ! i = saws w ! i" using pi by (simp add: emit_def)
      ultimately show ?thesis using evs "2.prems"(3) by simp
    next
      case Nothing
      then have "w' = put j s' w" using "2.prems"(1) c by (simp del: call.simps)
      then show ?thesis using pi "2.prems"(4) by (simp add: put_def)
    next
      case (Throw err)
      then have "w' = put j s' w" using "2.prems"(1) c by (simp del: call.simps)
      then show ?thesis using pi "2.prems"(4) by (simp add: put_def)
    next
      case (Invoke f this as)
      then have "w' = emit (Invoked j f this as) (put j s' w)"
        using "2.prems"(1) c by (simp del: call.simps)
      then show ?thesis using pi "2.prems"(3,4) by (auto simp: put_def emit_def)
    next
      case (Delegate g node this as)
      then have "w' = emit (Delegated j g node this as) (put j s' w)"
        using "2.prems"(1) c by (simp del: call.simps)
      then show ?thesis using pi "2.prems"(3,4) by (auto simp: put_def emit_def)
    next
      case (Fire f)
      then have "w' = emit (Fired j f) (put j s' w)"
        using "2.prems"(1) c by (simp del: call.simps)
      then show ?thesis using pi "2.prems"(3,4) by (auto simp: put_def emit_def)
    qed
  qed
next
  case (3 k w)
  then show ?case by simp
next
  case (4 k p ls w)
  have pi: "p \<noteq> i" and li: "NextOf i \<notin> set ls" using "4.prems"(2) by auto
  show ?case
  proof (cases "call k saw_next p w")
    case None
    with "4.prems" show ?thesis by simp
  next
    case (Some a)
    obtain r1 w1 where a: "a = (r1, w1)" by (metis surj_pair)
    have c1: "call k saw_next p w = Some (r1, w1)" using Some a by simp
    from call_frame(1)[OF c1] on_end_saw_next
    obtain e1 where lw: "map on_end (saws w1) = map on_end (saws w)" and t1: "trace w1 = trace w @ e1"
      by blast
    show ?thesis
    proof (cases r1)
      case (Some err)
      then have w': "w' = w1" using "4.prems"(1) c1 by simp
      then have "evs = e1" using t1 "4.prems"(3) by simp
      then show ?thesis
        using "4.IH"(1)[OF c1 on_end_saw_next pi t1] "4.prems"(4) w' by simp
    next
      case None
      then have n: "notify k ls w1 = Some (r, w')" using "4.prems"(1) c1 by simp
      from call_frame(2)[OF n] obtain e2 where t2: "trace w' = trace w1 @ e2" by blast
      have evs: "evs = e1 @ e2" using t1 t2 "4.prems"(3) by simp
      have h1: "\<forall>q < length (saws w). NextOf i \<in> set (on_end (saws w ! q)) \<longrightarrow>
          Emitted q ''end'' \<notin> set e1"
        using "4.prems"(4) evs by auto
      have h2: "\<forall>q < length (saws w1). NextOf i \<in> set (on_end (saws w1 ! q)) \<longrightarrow>
          Emitted q ''end'' \<notin> set e2"
        using "4.prems"(4) evs listeners_nth[OF lw] by auto
      have s1: "saws w1 ! i = saws w ! i \<and> (\<forall>ev \<in> set e1. chain_of ev \<noteq> i)"
        using "4.IH"(1)[OF c1 on_end_saw_next pi t1 h1] .
      have s2: "saws w' ! i = saws w1 ! i \<and> (\<forall>ev \<in> set e2. chain_of ev \<noteq> i)"
        using "4.IH"(2)[OF c1 _ None n li t2 h2] by simp
      from s1 s2 evs show ?thesis by auto
    qed
  qed
qed

subsection \<open>What a run leaves as it was\<close>

lemma grown_iff: "take (length xs) ys = xs \<longleftrightarrow> (\<exists>zs. ys = xs @ zs)"
proof
  assume "take (length xs) ys = xs"
  then have "ys = xs @ drop (length xs) ys" by (metis append_take_drop_id)
  then show "\<exists>zs. ys = xs @ zs" by blast
next
  assume "\<exists>zs. ys = xs @ zs"
  then show "take (length xs) ys = xs" by auto
qed

lemma steady_refl: "steady i w w"
  by (simp add: steady_def)

lemma steady_trans:
  assumes "steady i w w1" and "steady i w1 w2"
  shows "steady i w w2"
proof -
  from assms have t: "take (length (trace w)) (trace w2) = trace w"
    unfolding steady_def grown_iff by auto
  from assms have h: "\<forall>q < length (saws w2).
            (NextOf i \<in> set (on_end (saws w2 ! q))) =
              (q < length (saws w) \<and> NextOf i \<in> set (on_end (saws w ! q)))"
    unfolding steady_def by (metis less_le_trans)
  from assms t h show ?thesis unfolding steady_def by auto
qed

lemma steady_listeners:
  assumes "map on_end (saws w') = map on_end (saws w)"
    and "set (ticks w') \<subseteq> set (ticks w)" and "\<exists>evs. trace w' = trace w @ evs"
  shows "steady i w w'"
  using listeners_nth[OF assms(1)] assms(2,3)
  unfolding steady_def grown_iff by auto

lemma call_steady:
  assumes "call k m j w = Some (r, w')" and "\<And>s. on_end (snd (m s)) = on_end s"
  shows "steady i w w'"
  using call_frame(1)[OF assms] by (intro steady_listeners) auto

lemma on_end_popped: "on_end (snd (popped s)) = on_end s"
  by (simp add: popped_def on_end_saw_pop)

lemma on_end_finish: "on_end (snd (finish s)) = on_end s"
  by (simp add: finish_def)

lemma nest_enter_world:
  assumes "nest_enter j argv w = Aborted e w' \<or> nest_enter j argv w = Entered c f ch xs an w'"
  shows "saws w' = saws w @ [nested_saw (saws w ! j)]" and "trace w' = trace w"
    and "set (ticks w') \<subseteq> insert (length (saws w)) (set (ticks w))"
proof -
  obtain a g ys where n: "nest_args argv = (a, g, ys)" by (metis prod_cases3)
  from assms n
  show "saws w' = saws w @ [nested_saw (saws w ! j)]" and "trace w' = trace w"
    and "set (ticks w') \<subseteq> insert (length (saws w)) (set (ticks w))"
    by (auto simp add: nest_enter_def alloc_def saw_chain_def split: jsval.splits sum.splits)
qed

lemma steady_enter:
  assumes "saws w' = saws w @ [s]" and "trace w' = trace w"
    and "set (ticks w') \<subseteq> insert (length (saws w)) (set (ticks w))" and "i < length (saws w)"
    and "on_end s = []"
  shows "steady i w w'"
  using assms unfolding steady_def by (auto simp: nth_append less_Suc_eq)

lemma steady_leave:
  assumes "j \<noteq> i"
  shows "steady i w (nest_leave j c an w)"
proof (cases "an \<and> c < length (saws w)")
  case True
  then show ?thesis
    using assms unfolding steady_def nest_leave_def put_def
    by (auto simp: nth_list_update)
next
  case False
  then have "nest_leave j c an w = w \<or> saws (nest_leave j c an w) = saws w
      \<and> ticks (nest_leave j c an w) = ticks w \<and> trace (nest_leave j c an w) = trace w"
    by (auto simp: nest_leave_def put_def list_update_beyond)
  then show ?thesis unfolding steady_def by auto
qed

lemma act_steady:
  assumes "act k x w = Some (r, w')" and "i < length (saws w)" and "\<not> aims i x"
  shows "steady i w w'"
proof (cases x)
  case (Next j)
  then show ?thesis using call_steady[of k saw_next j w r w' i] assms(1) on_end_saw_next by simp
next
  case (Pop j)
  then show ?thesis using call_steady[of k popped j w r w' i] assms(1) on_end_popped by simp
next
  case (Down j nm)
  then show ?thesis using call_steady[of k "saw_down nm" j w r w' i] assms(1) on_end_saw_down by simp
next
  case (Jump j st)
  then show ?thesis using call_steady[of k "saw_jump st" j w r w' i] assms(1) on_end_saw_jump by simp
next
  case (Snare j nm c)
  then show ?thesis using call_steady[of k "saw_trap nm c" j w r w' i] assms(1) on_end_saw_trap by simp
next
  case (Rewind j)
  then show ?thesis using call_steady[of k rewind j w r w' i] assms(1) on_end_rewind by simp
next
  case (Finish j)
  then show ?thesis using call_steady[of k finish j w r w' i] assms(1) on_end_finish by simp
next
  case (Push j p as)
  let ?s = "(saws w ! j)\<lparr>actions := actions (saws w ! j) @ [Call p as]\<rparr>"
  have w': "w' = put j ?s w" using assms(1) Push by (simp add: proxy_def)
  have "map on_end (saws (put j ?s w)) = map on_end (saws w)"
    by (rule listeners_put) simp
  then show ?thesis unfolding w' by (intro steady_listeners) (simp_all add: put_def)
next
  case Tick
  show ?thesis
  proof (cases "ticks w")
    case Nil
    then show ?thesis using Tick assms(1) by (simp add: tick_def steady_refl)
  next
    case (Cons t rest)
    let ?w = "emit (Emitted t ''begin'') (w\<lparr>ticks := rest\<rparr>)"
    have c: "call k saw_next t ?w = Some (r, w')" using Tick Cons assms(1) by (simp add: tick_def)
    have "steady i w ?w"
      by (intro steady_listeners) (auto simp: emit_def Cons)
    moreover have "steady i ?w w'" using call_steady[OF c on_end_saw_next] .
    ultimately show ?thesis by (rule steady_trans)
  qed
next
  case (Enter j argv)
  then consider e where "nest_enter j argv w = Aborted e w'"
    | c f ch xs an where "nest_enter j argv w = Entered c f ch xs an w'"
    using assms(1) by (auto split: entry.splits)
  then show ?thesis
  proof cases
    case 1
    then have n: "nest_enter j argv w = Aborted e w' \<or>
        nest_enter j argv w = Entered 0 (Applied 0) Undefined [] True w'"
      by simp
    show ?thesis
      using steady_enter[OF nest_enter_world[OF n] assms(2)] nested_saw_fresh(2) by blast
  next
    case 2
    then have n: "nest_enter j argv w = Aborted TypeError w' \<or>
        nest_enter j argv w = Entered c f ch xs an w'"
      by simp
    show ?thesis
      using steady_enter[OF nest_enter_world[OF n] assms(2)] nested_saw_fresh(2) by blast
  qed
next
  case (Leave j c an)
  then have "w' = nest_leave j c an w" and "j \<noteq> i" using assms(1,3) by simp_all
  then show ?thesis using steady_leave by simp
qed

lemma drive_steady:
  "drive k ops w = Some w' \<Longrightarrow> i < length (saws w) \<Longrightarrow> \<forall>x \<in> set ops. \<not> aims i x \<Longrightarrow>
     steady i w w'"
proof (induction ops arbitrary: w)
  case Nil
  then show ?case by (simp add: steady_refl)
next
  case (Cons x xs)
  then obtain r w1 where a: "act k x w = Some (r, w1)" and d: "drive k xs w1 = Some w'"
    by (auto split: option.splits)
  have s1: "steady i w w1" using act_steady[OF a Cons.prems(2)] Cons.prems(3) by simp
  then have "i < length (saws w1)" using Cons.prems(2) by (simp add: steady_def)
  from Cons.IH[OF d this] Cons.prems(3) have "steady i w1 w'" by simp
  with s1 show ?case by (rule steady_trans)
qed

lemma steady_events:
  assumes "steady i w w1" and "trace w1 = trace w @ e1"
    and "\<forall>q < length (saws w). NextOf i \<in> set (on_end (saws w ! q)) \<longrightarrow>
           Emitted q ''end'' \<notin> set (e1 @ e2)"
  shows "\<forall>q < length (saws w1). NextOf i \<in> set (on_end (saws w1 ! q)) \<longrightarrow>
           Emitted q ''end'' \<notin> set e2"
  using assms unfolding steady_def by auto

lemma act_quiet:
  assumes "act k x w = Some (r, w')" and "i < length (saws w)" and "\<not> aims i x"
    and "i \<notin> set (ticks w)" and "trace w' = trace w @ evs"
    and "\<forall>q < length (saws w). NextOf i \<in> set (on_end (saws w ! q)) \<longrightarrow> Emitted q ''end'' \<notin> set evs"
  shows "saws w' ! i = saws w ! i \<and> (\<forall>ev \<in> set evs. chain_of ev \<noteq> i)"
proof (cases x)
  case (Next j)
  then show ?thesis
    using call_quiet(1)[of k saw_next j w r w' i evs] assms on_end_saw_next by simp
next
  case (Pop j)
  then show ?thesis
    using call_quiet(1)[of k popped j w r w' i evs] assms on_end_popped by simp
next
  case (Down j nm)
  then show ?thesis
    using call_quiet(1)[of k "saw_down nm" j w r w' i evs] assms on_end_saw_down by simp
next
  case (Jump j st)
  then show ?thesis
    using call_quiet(1)[of k "saw_jump st" j w r w' i evs] assms on_end_saw_jump by simp
next
  case (Snare j nm c)
  then show ?thesis
    using call_quiet(1)[of k "saw_trap nm c" j w r w' i evs] assms on_end_saw_trap by simp
next
  case (Rewind j)
  then show ?thesis
    using call_quiet(1)[of k rewind j w r w' i evs] assms on_end_rewind by simp
next
  case (Finish j)
  then show ?thesis
    using call_quiet(1)[of k finish j w r w' i evs] assms on_end_finish by simp
next
  case (Push j p as)
  then have "w' = put j ((saws w ! j)\<lparr>actions := actions (saws w ! j) @ [Call p as]\<rparr>) w"
    and "j \<noteq> i"
    using assms(1,3) by (simp_all add: proxy_def)
  then show ?thesis using assms(5) by (simp add: put_def)
next
  case Tick
  show ?thesis
  proof (cases "ticks w")
    case Nil
    then show ?thesis using Tick assms(1,5) by (simp add: tick_def)
  next
    case (Cons t rest)
    let ?w = "emit (Emitted t ''begin'') (w\<lparr>ticks := rest\<rparr>)"
    have ti: "t \<noteq> i" using assms(4) Cons by auto
    have c: "call k saw_next t ?w = Some (r, w')" using Tick Cons assms(1) by (simp add: tick_def)
    from call_frame(1)[OF c] on_end_saw_next obtain e1 where t1: "trace w' = trace ?w @ e1"
      by blast
    have evs: "evs = Emitted t ''begin'' # e1" using t1 assms(5) by (simp add: emit_def)
    have hyp: "\<forall>q < length (saws ?w). NextOf i \<in> set (on_end (saws ?w ! q)) \<longrightarrow>
        Emitted q ''end'' \<notin> set e1"
      using assms(6) evs by (auto simp: emit_def)
    have "saws w' ! i = saws ?w ! i \<and> (\<forall>ev \<in> set e1. chain_of ev \<noteq> i)"
      using call_quiet(1)[OF c on_end_saw_next ti t1 hyp] .
    then show ?thesis using evs ti by (simp add: emit_def)
  qed
next
  case (Enter j argv)
  then consider e where "nest_enter j argv w = Aborted e w'"
    | c f ch xs an where "nest_enter j argv w = Entered c f ch xs an w'"
    using assms(1) by (auto split: entry.splits)
  then have "saws w' = saws w @ [nested_saw (saws w ! j)] \<and> trace w' = trace w"
  proof cases
    case 1
    then have n: "nest_enter j argv w = Aborted e w' \<or>
        nest_enter j argv w = Entered 0 (Applied 0) Undefined [] True w'"
      by simp
    show ?thesis using nest_enter_world(1,2)[OF n] by simp
  next
    case 2
    then have n: "nest_enter j argv w = Aborted TypeError w' \<or>
        nest_enter j argv w = Entered c f ch xs an w'"
      by simp
    show ?thesis using nest_enter_world(1,2)[OF n] by simp
  qed
  then show ?thesis using assms(2,5) by (simp add: nth_append)
next
  case (Leave j c an)
  then have w': "w' = nest_leave j c an w" and ci: "c \<noteq> i" using assms(1,3) by simp_all
  have "trace (nest_leave j c an w) = trace w" by (simp add: nest_leave_def put_def)
  then have "evs = []" using assms(5) w' by simp
  moreover have "saws (nest_leave j c an w) ! i = saws w ! i"
    using ci by (simp add: nest_leave_def put_def)
  ultimately show ?thesis using w' by simp
qed

lemma drive_quiet:
  "drive k ops w = Some w' \<Longrightarrow> i < length (saws w) \<Longrightarrow> \<forall>x \<in> set ops. \<not> aims i x \<Longrightarrow>
     i \<notin> set (ticks w) \<Longrightarrow> trace w' = trace w @ evs \<Longrightarrow>
     (\<forall>q < length (saws w). NextOf i \<in> set (on_end (saws w ! q)) \<longrightarrow> Emitted q ''end'' \<notin> set evs) \<Longrightarrow>
     saws w' ! i = saws w ! i \<and> (\<forall>ev \<in> set evs. chain_of ev \<noteq> i)"
proof (induction ops arbitrary: w evs)
  case Nil
  then show ?case by simp
next
  case (Cons x xs)
  from Cons.prems(1) obtain r w1 where a: "act k x w = Some (r, w1)" and d: "drive k xs w1 = Some w'"
    by (auto split: option.splits)
  have ax: "\<not> aims i x" and axs: "\<forall>x \<in> set xs. \<not> aims i x" using Cons.prems(3) by simp_all
  have st: "steady i w w1" using act_steady[OF a Cons.prems(2) ax] .
  then obtain e1 where t1: "trace w1 = trace w @ e1" unfolding steady_def grown_iff by blast
  have il: "i < length (saws w1)" using st Cons.prems(2) by (simp add: steady_def)
  have i1: "i \<notin> set (ticks w1)" using st Cons.prems(4) by (auto simp: steady_def)
  have "steady i w1 w'" using drive_steady[OF d il axs] .
  then obtain e2 where t2: "trace w' = trace w1 @ e2" unfolding steady_def grown_iff by blast
  have evs: "evs = e1 @ e2" using t1 t2 Cons.prems(5) by simp
  have h1: "\<forall>q < length (saws w). NextOf i \<in> set (on_end (saws w ! q)) \<longrightarrow>
      Emitted q ''end'' \<notin> set e1"
    using Cons.prems(6) evs by auto
  have h2: "\<forall>q < length (saws w1). NextOf i \<in> set (on_end (saws w1 ! q)) \<longrightarrow>
      Emitted q ''end'' \<notin> set e2"
    using steady_events[OF st t1] Cons.prems(6) evs by simp
  have s1: "saws w1 ! i = saws w ! i \<and> (\<forall>ev \<in> set e1. chain_of ev \<noteq> i)"
    using act_quiet[OF a Cons.prems(2) ax Cons.prems(4) t1 h1] .
  have s2: "saws w' ! i = saws w1 ! i \<and> (\<forall>ev \<in> set e2. chain_of ev \<noteq> i)"
    using Cons.IH[OF d il axs i1 t2 h2] .
  from s1 s2 evs show ?case by auto
qed

text \<open>
  A call of \<^verbatim>\<open>saw.nest\<close> whose callback makes the calls \<open>ops\<close> and returns is the run of
  \<open>Enter\<close>, these calls, and \<open>Leave\<close>.
\<close>

lemma drive_append:
  "drive k (xs @ ys) w = (case drive k xs w of None \<Rightarrow> None | Some w' \<Rightarrow> drive k ys w')"
  by (induction xs arbitrary: w) (auto split: option.splits)

lemma nest_as_run:
  assumes "nest_enter j argv w = Entered c f ch xs an w1" and "drive k ops w1 = Some w2"
    and "body f ch xs w1 = (None, w2)"
  shows "drive k (Enter j argv # ops @ [Leave j c an]) w = Some (snd (saw_nest body j argv w))"
  using assms by (simp add: drive_append saw_nest_def)

text \<open>
  The whole of a call of \<^verbatim>\<open>saw.nest\<close> and what follows it, for a parent \<open>i\<close> whose \<^verbatim>\<open>next\<close>
  no chain holds when \<^verbatim>\<open>nest\<close> is called: the callback makes the calls \<open>cops\<close> and
  returns, line 137 runs, and the calls \<open>ops\<close> follow. Unless the new chain has emitted
  \<^verbatim>\<open>end\<close> by then, with \<^verbatim>\<open>autonext\<close> not false, the parent is as it was when \<^verbatim>\<open>nest\<close> was
  called.
\<close>

lemma nest_suspends_parent:
  assumes e: "nest_enter i argv w = Entered c f ch xs an w1" and il: "i < length (saws w)"
    and nh: "\<forall>q < length (saws w). NextOf i \<notin> set (on_end (saws w ! q))"
    and nt: "i \<notin> set (ticks w)"
    and d1: "drive k cops w1 = Some w2" and a1: "\<forall>x \<in> set cops. \<not> aims i x"
    and d2: "drive k' ops (nest_leave i c an w2) = Some v'" and a2: "\<forall>x \<in> set ops. \<not> aims i x"
    and ne: "an \<longrightarrow> Emitted c ''end'' \<notin> set (drop (length (trace w)) (trace v'))"
  shows "saws v' ! i = saws w ! i
       \<and> take (length (trace w)) (trace v') = trace w
       \<and> (\<forall>ev \<in> set (drop (length (trace w)) (trace v')). chain_of ev \<noteq> i)"
proof -
  note n = nest_enter_Entered[OF e]
  have ic: "i < c" using n(2) il by simp
  have w1: "saws w1 = saws w @ [nested_saw (saws w ! i)]" "trace w1 = trace w"
    "ticks w1 = ticks w @ [c]"
    using n(2,3) by simp_all
  have il1: "i < length (saws w1)" using w1(1) il by simp
  have nt1: "i \<notin> set (ticks w1)" using w1(3) nt ic by simp
  have nh1: "\<forall>q < length (saws w1). NextOf i \<notin> set (on_end (saws w1 ! q))"
    using nh w1(1) by (auto simp: nth_append less_Suc_eq nested_saw_fresh)
  have st1: "steady i w1 w2" using drive_steady[OF d1 il1 a1] .
  then obtain e1 where t1: "trace w2 = trace w1 @ e1" unfolding steady_def grown_iff by blast
  have q1: "saws w2 ! i = saws w1 ! i \<and> (\<forall>ev \<in> set e1. chain_of ev \<noteq> i)"
    using drive_quiet[OF d1 il1 a1 nt1 t1] nh1 by blast
  have il2: "i < length (saws w2)" and nt2: "i \<notin> set (ticks w2)"
    and nh2: "\<forall>q < length (saws w2). NextOf i \<notin> set (on_end (saws w2 ! q))"
    using st1 il1 nt1 nh1 unfolding steady_def by auto
  let ?v = "nest_leave i c an w2"
  have v: "saws ?v ! i = saws w2 ! i" "trace ?v = trace w2" "ticks ?v = ticks w2"
    "length (saws ?v) = length (saws w2)"
    using ic by (simp_all add: nest_leave_def put_def)
  have hv: "\<forall>q < length (saws ?v). NextOf i \<in> set (on_end (saws ?v ! q)) \<longrightarrow> an \<and> q = c"
  proof (intro allI impI)
    fix q assume q: "q < length (saws ?v)" and h: "NextOf i \<in> set (on_end (saws ?v ! q))"
    have q2: "q < length (saws w2)" using q v(4) by simp
    show "an \<and> q = c"
    proof (rule ccontr)
      assume "\<not> (an \<and> q = c)"
      then have "saws ?v ! q = saws w2 ! q"
        by (auto simp: nest_leave_def put_def)
      then show False using h nh2 q2 by simp
    qed
  qed
  have ilv: "i < length (saws ?v)" and ntv: "i \<notin> set (ticks ?v)" using il2 nt2 v by simp_all
  have "steady i ?v v'" using drive_steady[OF d2 ilv a2] .
  then obtain e2 where t2: "trace v' = trace ?v @ e2" unfolding steady_def grown_iff by blast
  have tr: "trace v' = trace w @ (e1 @ e2)" using t1 t2 v(2) w1(2) by simp
  then have dp: "drop (length (trace w)) (trace v') = e1 @ e2" by simp
  have h2: "\<forall>q < length (saws ?v). NextOf i \<in> set (on_end (saws ?v ! q)) \<longrightarrow>
      Emitted q ''end'' \<notin> set e2"
    using hv ne dp by auto
  have q2: "saws v' ! i = saws ?v ! i \<and> (\<forall>ev \<in> set e2. chain_of ev \<noteq> i)"
    using drive_quiet[OF d2 ilv a2 ntv t2 h2] .
  have "saws w1 ! i = saws w ! i" using w1(1) il by (simp add: nth_append)
  with q1 q2 v(1) have "saws v' ! i = saws w ! i" by simp
  moreover have "take (length (trace w)) (trace v') = trace w" using tr by simp
  moreover have "\<forall>ev \<in> set (drop (length (trace w)) (trace v')). chain_of ev \<noteq> i"
    using q1 q2 dp by auto
  ultimately show ?thesis by blast
qed

subsection \<open>Runs return\<close>

lemma call_total:
  assumes "ordered w" and "length (saws w) < k" and "\<And>s. on_end (snd (m s)) = on_end s"
  shows "\<exists>r w'. call k m j w = Some (r, w') \<and> ordered w' \<and> length (saws w') = length (saws w)"
proof (cases "j < length (saws w)")
  case True
  then have "j < k" using assms(2) by simp
  from call_returns[OF this assms(1) True, of m] assms(3) show ?thesis by blast
next
  case False
  obtain k' where "k = Suc k'" using assms(2) by (cases k) simp_all
  then show ?thesis using False assms(1) by simp
qed

lemma ordered_saws: "saws w' = saws w \<Longrightarrow> ordered w' = ordered w"
  by (simp add: ordered_iff)

lemma act_total:
  assumes "ordered w" and "length (saws w) < k" and "upward x"
  shows "\<exists>r w'. act k x w = Some (r, w') \<and> ordered w' \<and> length (saws w') \<le> Suc (length (saws w))"
proof (cases x)
  case (Next j)
  then show ?thesis using call_total[OF assms(1,2), of saw_next j] on_end_saw_next by auto
next
  case (Pop j)
  then show ?thesis using call_total[OF assms(1,2), of popped j] on_end_popped by auto
next
  case (Down j nm)
  then show ?thesis using call_total[OF assms(1,2), of "saw_down nm" j] on_end_saw_down by auto
next
  case (Jump j st)
  then show ?thesis using call_total[OF assms(1,2), of "saw_jump st" j] on_end_saw_jump by auto
next
  case (Snare j nm c)
  then show ?thesis using call_total[OF assms(1,2), of "saw_trap nm c" j] on_end_saw_trap by auto
next
  case (Rewind j)
  then show ?thesis using call_total[OF assms(1,2), of rewind j] on_end_rewind by auto
next
  case (Finish j)
  then show ?thesis using call_total[OF assms(1,2), of finish j] on_end_finish by auto
next
  case (Push j p as)
  have "ordered (put j ((saws w ! j)\<lparr>actions := actions (saws w ! j) @ [Call p as]\<rparr>) w)"
    by (rule ordered_put[OF assms(1)]) simp
  then show ?thesis using Push by (simp add: proxy_def put_def)
next
  case Tick
  show ?thesis
  proof (cases "ticks w")
    case Nil
    then show ?thesis using Tick assms(1) by (simp add: tick_def)
  next
    case (Cons t rest)
    let ?w = "emit (Emitted t ''begin'') (w\<lparr>ticks := rest\<rparr>)"
    have o: "ordered ?w" using assms(1) by (simp add: ordered_iff emit_def)
    have l: "length (saws ?w) < k" using assms(2) by (simp add: emit_def)
    from call_total[OF o l, of saw_next t] on_end_saw_next
    show ?thesis using Tick Cons by (auto simp: tick_def emit_def)
  qed
next
  case (Enter j argv)
  obtain r w' where a: "act k x w = Some (r, w')"
    using Enter by (cases "nest_enter j argv w") auto
  then consider e where "nest_enter j argv w = Aborted e w'"
    | c f ch xs an where "nest_enter j argv w = Entered c f ch xs an w'"
    using Enter by (auto split: entry.splits)
  then have s: "saws w' = saws w @ [nested_saw (saws w ! j)]"
  proof cases
    case 1
    then have n: "nest_enter j argv w = Aborted e w' \<or>
        nest_enter j argv w = Entered 0 (Applied 0) Undefined [] True w'"
      by simp
    show ?thesis using nest_enter_world(1)[OF n] .
  next
    case 2
    then have n: "nest_enter j argv w = Aborted TypeError w' \<or>
        nest_enter j argv w = Entered c f ch xs an w'"
      by simp
    show ?thesis using nest_enter_world(1)[OF n] .
  qed
  have o: "ordered (w\<lparr>saws := saws w @ [nested_saw (saws w ! j)], ticks := ticks w\<rparr>)"
    by (rule ordered_alloc[OF assms(1)]) (simp add: nested_saw_fresh)
  have eq: "saws w' = saws (w\<lparr>saws := saws w @ [nested_saw (saws w ! j)], ticks := ticks w\<rparr>)"
    using s by simp
  have "ordered w'" using ordered_saws[OF eq] o by blast
  then show ?thesis using a s by simp
next
  case (Leave j c an)
  have jc: "j < c" using assms(3) Leave by simp
  have "ordered (nest_leave j c an w)"
  proof (cases "c < length (saws w)")
    case True
    then show ?thesis using ordered_nest_leave[OF assms(1) True jc] by simp
  next
    case False
    then have eq: "saws (nest_leave j c an w) = saws w"
      by (simp add: nest_leave_def put_def list_update_beyond)
    show ?thesis using ordered_saws[OF eq] assms(1) by blast
  qed
  moreover have "length (saws (nest_leave j c an w)) = length (saws w)"
    by (simp add: nest_leave_def put_def)
  ultimately show ?thesis using Leave by simp
qed

lemma drive_total:
  "ordered w \<Longrightarrow> length (saws w) + length ops < k \<Longrightarrow> \<forall>x \<in> set ops. upward x \<Longrightarrow>
     \<exists>w'. drive k ops w = Some w'"
proof (induction ops arbitrary: w)
  case Nil
  then show ?case by simp
next
  case (Cons x xs)
  have lk: "length (saws w) < k" using Cons.prems(2) by simp
  have ux: "upward x" using Cons.prems(3) by simp
  from act_total[OF Cons.prems(1) lk ux] obtain r w1
    where a: "act k x w = Some (r, w1)" and o: "ordered w1"
      and l: "length (saws w1) \<le> Suc (length (saws w))"
    by blast
  have "length (saws w1) + length xs < k" using l Cons.prems(2) by simp
  from Cons.IH[OF o this] Cons.prems(3) show ?case using a by simp
qed

text \<open>
  Claim C9. When \<^verbatim>\<open>saw.nest\<close> gets as far as its callback, the new chain is the last one
  of the store and its queue is empty. It is recording, with the cursor at 0, if the
  parent is recording, and it is a light chain if the parent is one; the parent keeps
  its own mode. The callback runs in exactly this store, and registering the listener
  afterwards does not change the mode of the new chain.
\<close>

theorem nest_hands_recording_down:
  assumes "nest_enter i argv w = Entered c f ch xs an w1" and "i < length (saws w)"
  shows "c = length (saws w)
       \<and> saws w1 = saws w @ [saws w1 ! c]
       \<and> step (saws w1 ! c) = (if step (saws w ! i) = None then None else Some 0)
       \<and> actions (saws w1 ! c) = []
       \<and> step (saws w1 ! i) = step (saws w ! i)
       \<and> (\<forall>body. saw_nest body i argv w =
            (case body f ch xs w1 of
               (Some e, w2) \<Rightarrow> (Some e, w2)
             | (None, w2) \<Rightarrow> (None, nest_leave i c an w2)))
       \<and> (\<forall>v. c < length (saws v) \<longrightarrow> step (saws (nest_leave i c an v) ! c) = step (saws v ! c))"
proof -
  note e = nest_enter_Entered[OF assms(1)]
  have a: "c = length (saws w)" by (rule e(2))
  have b: "saws w1 = saws w @ [saws w1 ! c]" using e(2,3) by simp
  have s: "step (saws w1 ! c) = (if step (saws w ! i) = None then None else Some 0)"
    and q: "actions (saws w1 ! c) = []"
    using e(2,3) by (simp_all add: nested_saw_fresh)
  have p: "step (saws w1 ! i) = step (saws w ! i)"
    using e(3) assms(2) by (simp add: nth_append)
  have n: "\<forall>body. saw_nest body i argv w =
            (case body f ch xs w1 of
               (Some e, w2) \<Rightarrow> (Some e, w2)
             | (None, w2) \<Rightarrow> (None, nest_leave i c an w2))"
    using assms(1) by (simp add: saw_nest_def)
  have l: "\<forall>v. c < length (saws v) \<longrightarrow> step (saws (nest_leave i c an v) ! c) = step (saws v ! c)"
    by (simp add: nest_leave_def put_def)
  from a b s q p n l show ?thesis by blast
qed

theorem nest_hands_recording_down_witness:
  "nest_enter 0 [Fun 9, Num 15] parent_world =
     Entered 1 (Applied 9) (walk 1 [] (Obj (attaches example_builder))) [Num 15] True nested_world
   \<and> step (saws parent_world ! 0) = Some 1
   \<and> step (saws nested_world ! 1) = Some 0
   \<and> nest_enter 0 [Fun 9, Num 15] \<lparr>saws = [light_saw], ticks = [], trace = []\<rparr> =
     Entered 1 (Applied 9) (walk 1 [] (Obj (attaches example_builder))) [Num 15] True
       \<lparr>saws = [light_saw, nested_saw light_saw], ticks = [1], trace = []\<rparr>
   \<and> step light_saw = None
   \<and> step (saws \<lparr>saws = [light_saw, nested_saw light_saw], ticks = [1], trace = []\<rparr> ! 1) = None"
proof -
  have e: "nest_enter 0 [Fun 9, Num 15] parent_world =
     Entered 1 (Applied 9) (walk 1 [] (Obj (attaches example_builder))) [Num 15] True nested_world"
    by (simp add: nest_enter_def nest_args_def alloc_def saw_chain_def parent_world_def
        nested_world_def nested_saw_parent)
  have l: "0 < length (saws parent_world)" by (simp add: parent_world_def)
  have p: "step (saws parent_world ! 0) = Some 1" by (simp add: parent_world_def parent_saw_def)
  have r: "step (saws nested_world ! 1) = Some 0"
    using nest_hands_recording_down[OF e l, THEN conjunct2, THEN conjunct2, THEN conjunct1]
    by (simp add: p)
  let ?lw = "\<lparr>saws = [light_saw], ticks = [], trace = []\<rparr>"
  let ?nw = "\<lparr>saws = [light_saw, nested_saw light_saw], ticks = [1], trace = []\<rparr>"
  have e': "nest_enter 0 [Fun 9, Num 15] ?lw =
     Entered 1 (Applied 9) (walk 1 [] (Obj (attaches example_builder))) [Num 15] True ?nw"
    by (simp add: nest_enter_def nest_args_def alloc_def saw_chain_def nested_saw_light)
  have l': "0 < length (saws ?lw)" by simp
  have p': "step light_saw = None"
    by (simp add: light_saw_def build_def chainsaw_saw_def Let_def)
  have r': "step (saws ?nw ! 1) = None"
    using nest_hands_recording_down[OF e' l', THEN conjunct2, THEN conjunct2, THEN conjunct1]
    by (simp add: p')
  from e p r e' p' r' show ?thesis by blast
qed

text \<open>
  Claim C4, as amended. \<^verbatim>\<open>autonext\<close> is false only when the first argument of
  \<^verbatim>\<open>saw.nest\<close> is the boolean \<^verbatim>\<open>false\<close>. Up to the callback, \<^verbatim>\<open>nest\<close> leaves the parent and
  the trace as they were, gives the child no listener, and schedules the tick of the
  child. When the callback returns, \<^verbatim>\<open>nest\<close> adds the \<^verbatim>\<open>next\<close> of
  the parent to the \<^verbatim>\<open>end\<close> listeners of the child unless \<^verbatim>\<open>autonext\<close> is false, in which
  case it changes nothing; when the callback throws, \<^verbatim>\<open>nest\<close> ends there and registers
  nothing. A call of a method of the child that signals \<^verbatim>\<open>end\<close> is the \<^verbatim>\<open>end\<close> event
  followed by the \<^verbatim>\<open>next\<close> of the parent, if that is the one listener of the child, and the
  \<^verbatim>\<open>end\<close> event alone if the child has no listener.

  Then, over runs: take any store \<open>v\<close> and any run of calls of methods (\<^verbatim>\<open>nest\<close> among
  them), of proxied operations and of ticks, in which no method of the parent is called
  from outside and the tick of the parent is not pending. The trace only grows. As long as no chain that holds the \<^verbatim>\<open>next\<close> of the parent among its
  listeners has emitted \<^verbatim>\<open>end\<close> in the run, the parent is the record it was (its queue and
  its cursor have not moved) and no entry that the run has added to the trace belongs
  to the parent: no operation of the parent has been executed. In particular, for a
  parent whose \<^verbatim>\<open>next\<close> no chain holds when it calls \<^verbatim>\<open>nest\<close>: whatever calls the callback
  makes before it returns and whatever calls follow line 137, nothing of the parent
  happens before the new chain emits \<^verbatim>\<open>end\<close>, and nothing at all when \<^verbatim>\<open>autonext\<close> is false.
  A run in which every listener is registered on a chain newer than the one it resumes
  returns on an ordered store, given a call depth above the number of chains and of
  entries of the run, and \<^verbatim>\<open>nest\<close> keeps stores ordered.
\<close>

theorem nest_resumes_parent_at_end:
  assumes "nest_enter i argv w = Entered c f ch xs an w1" and "i < length (saws w)"
  shows "an = (case argv of Bool b # rest \<Rightarrow> b | _ \<Rightarrow> True)
       \<and> i < c \<and> saws w1 ! i = saws w ! i \<and> trace w1 = trace w
       \<and> on_end (saws w1 ! c) = [] \<and> ticks w1 = ticks w @ [c]
       \<and> (\<forall>body w2. body f ch xs w1 = (None, w2) \<longrightarrow>
             saw_nest body i argv w = (None, nest_leave i c an w2))
       \<and> (\<forall>body e w2. body f ch xs w1 = (Some e, w2) \<longrightarrow>
             saw_nest body i argv w = (Some e, w2))
       \<and> (\<forall>v. c < length (saws v) \<longrightarrow>
             on_end (saws (nest_leave i c an v) ! c) =
               on_end (saws v ! c) @ (if an then [NextOf i] else [])
           \<and> saws (nest_leave i c an v) ! i = saws v ! i
           \<and> trace (nest_leave i c an v) = trace v)
       \<and> (\<forall>v. \<not> an \<longrightarrow> nest_leave i c an v = v)
       \<and> (\<forall>k m v s'. c < length (saws v) \<and> m (saws v ! c) = (EmitEnd, s')
               \<and> on_end s' = [NextOf i] \<longrightarrow>
             call (Suc k) m c v =
               call k saw_next i (emit (Emitted c ''end'') (put c s' v)))
       \<and> (\<forall>k m v s'. c < length (saws v) \<and> m (saws v ! c) = (EmitEnd, s')
               \<and> on_end s' = [] \<longrightarrow>
             call (Suc k) m c v = Some (None, emit (Emitted c ''end'') (put c s' v)))
       \<and> (\<forall>k ops v v'. drive k ops v = Some v' \<and> i < length (saws v)
               \<and> (\<forall>x \<in> set ops. \<not> aims i x) \<and> i \<notin> set (ticks v)
               \<and> (\<forall>q < length (saws v). NextOf i \<in> set (on_end (saws v ! q)) \<longrightarrow>
                     Emitted q ''end'' \<notin> set (drop (length (trace v)) (trace v'))) \<longrightarrow>
             saws v' ! i = saws v ! i
           \<and> take (length (trace v)) (trace v') = trace v
           \<and> (\<forall>ev \<in> set (drop (length (trace v)) (trace v')). chain_of ev \<noteq> i))
       \<and> (\<forall>k k' cops ops w2 v'.
               (\<forall>q < length (saws w). NextOf i \<notin> set (on_end (saws w ! q)))
               \<and> i \<notin> set (ticks w)
               \<and> drive k cops w1 = Some w2 \<and> (\<forall>x \<in> set cops. \<not> aims i x)
               \<and> drive k' ops (nest_leave i c an w2) = Some v' \<and> (\<forall>x \<in> set ops. \<not> aims i x)
               \<and> (an \<longrightarrow> Emitted c ''end'' \<notin> set (drop (length (trace w)) (trace v'))) \<longrightarrow>
             saws v' ! i = saws w ! i
           \<and> take (length (trace w)) (trace v') = trace w
           \<and> (\<forall>ev \<in> set (drop (length (trace w)) (trace v')). chain_of ev \<noteq> i))
       \<and> (\<forall>k ops v. ordered v \<and> length (saws v) + length ops < k \<and> (\<forall>x \<in> set ops. upward x) \<longrightarrow>
             (\<exists>v'. drive k ops v = Some v'))
       \<and> (ordered w \<longrightarrow> ordered w1
             \<and> (\<forall>v. ordered v \<and> c < length (saws v) \<longrightarrow> ordered (nest_leave i c an v)))"
proof -
  note e = nest_enter_Entered[OF assms(1)]
  have ic: "i < c" using e(2) assms(2) by simp
  have a: "an = (case argv of Bool b # rest \<Rightarrow> b | _ \<Rightarrow> True)"
    using nest_args_autonext[of argv] e(1) by simp
  have b: "saws w1 ! i = saws w ! i" "trace w1 = trace w" "on_end (saws w1 ! c) = []"
    "ticks w1 = ticks w @ [c]"
    using e(2,3) assms(2) by (simp_all add: nth_append nested_saw_fresh)
  have n: "\<forall>body w2. body f ch xs w1 = (None, w2) \<longrightarrow>
             saw_nest body i argv w = (None, nest_leave i c an w2)"
    using assms(1) by (simp add: saw_nest_def)
  have t: "\<forall>body e w2. body f ch xs w1 = (Some e, w2) \<longrightarrow>
             saw_nest body i argv w = (Some e, w2)"
    using assms(1) by (simp add: saw_nest_def)
  have l: "\<forall>v. c < length (saws v) \<longrightarrow>
             on_end (saws (nest_leave i c an v) ! c) =
               on_end (saws v ! c) @ (if an then [NextOf i] else [])
           \<and> saws (nest_leave i c an v) ! i = saws v ! i
           \<and> trace (nest_leave i c an v) = trace v"
    using ic by (simp add: nest_leave_def put_def)
  have f: "\<forall>v. \<not> an \<longrightarrow> nest_leave i c an v = v"
    by (simp add: nest_leave_def)
  have d: "\<forall>k m v s'. c < length (saws v) \<and> m (saws v ! c) = (EmitEnd, s')
               \<and> on_end s' = [NextOf i] \<longrightarrow>
             call (Suc k) m c v =
               call k saw_next i (emit (Emitted c ''end'') (put c s' v))"
  proof (intro allI impI)
    fix k and m :: "saw \<Rightarrow> effect \<times> saw" and v :: world and s'
    assume h: "c < length (saws v) \<and> m (saws v ! c) = (EmitEnd, s') \<and> on_end s' = [NextOf i]"
    then show "call (Suc k) m c v =
               call k saw_next i (emit (Emitted c ''end'') (put c s' v))"
      using call_Suc[where m=m and i=c and w=v and k=k and e=EmitEnd and s'=s']
      by (simp add: notify_one del: call.simps notify.simps)
  qed
  have z: "\<forall>k m v s'. c < length (saws v) \<and> m (saws v ! c) = (EmitEnd, s')
               \<and> on_end s' = [] \<longrightarrow>
             call (Suc k) m c v = Some (None, emit (Emitted c ''end'') (put c s' v))"
  proof (intro allI impI)
    fix k and m :: "saw \<Rightarrow> effect \<times> saw" and v :: world and s'
    assume h: "c < length (saws v) \<and> m (saws v ! c) = (EmitEnd, s') \<and> on_end s' = []"
    then show "call (Suc k) m c v = Some (None, emit (Emitted c ''end'') (put c s' v))"
      using call_Suc[where m=m and i=c and w=v and k=k and e=EmitEnd and s'=s']
      by (simp del: call.simps)
  qed
  have q: "\<forall>k ops v v'. drive k ops v = Some v' \<and> i < length (saws v)
               \<and> (\<forall>x \<in> set ops. \<not> aims i x) \<and> i \<notin> set (ticks v)
               \<and> (\<forall>q < length (saws v). NextOf i \<in> set (on_end (saws v ! q)) \<longrightarrow>
                     Emitted q ''end'' \<notin> set (drop (length (trace v)) (trace v'))) \<longrightarrow>
             saws v' ! i = saws v ! i
           \<and> take (length (trace v)) (trace v') = trace v
           \<and> (\<forall>ev \<in> set (drop (length (trace v)) (trace v')). chain_of ev \<noteq> i)"
  proof (intro allI impI)
    fix k ops and v v' :: world
    assume h: "drive k ops v = Some v' \<and> i < length (saws v)
               \<and> (\<forall>x \<in> set ops. \<not> aims i x) \<and> i \<notin> set (ticks v)
               \<and> (\<forall>q < length (saws v). NextOf i \<in> set (on_end (saws v ! q)) \<longrightarrow>
                     Emitted q ''end'' \<notin> set (drop (length (trace v)) (trace v')))"
    then have dr: "drive k ops v = Some v'" and il: "i < length (saws v)"
      and ai: "\<forall>x \<in> set ops. \<not> aims i x" and ti: "i \<notin> set (ticks v)"
      by blast+
    from drive_steady[OF dr il ai] obtain evs where tr: "trace v' = trace v @ evs"
      unfolding steady_def grown_iff by blast
    have dp: "drop (length (trace v)) (trace v') = evs" using tr by simp
    have hy: "\<forall>q < length (saws v). NextOf i \<in> set (on_end (saws v ! q)) \<longrightarrow>
        Emitted q ''end'' \<notin> set evs"
      using h dp by simp
    from drive_quiet[OF dr il ai ti tr hy] tr dp
    show "saws v' ! i = saws v ! i
           \<and> take (length (trace v)) (trace v') = trace v
           \<and> (\<forall>ev \<in> set (drop (length (trace v)) (trace v')). chain_of ev \<noteq> i)"
      by simp
  qed
  have q': "\<forall>k k' cops ops w2 v'.
               (\<forall>q < length (saws w). NextOf i \<notin> set (on_end (saws w ! q)))
               \<and> i \<notin> set (ticks w)
               \<and> drive k cops w1 = Some w2 \<and> (\<forall>x \<in> set cops. \<not> aims i x)
               \<and> drive k' ops (nest_leave i c an w2) = Some v' \<and> (\<forall>x \<in> set ops. \<not> aims i x)
               \<and> (an \<longrightarrow> Emitted c ''end'' \<notin> set (drop (length (trace w)) (trace v'))) \<longrightarrow>
             saws v' ! i = saws w ! i
           \<and> take (length (trace w)) (trace v') = trace w
           \<and> (\<forall>ev \<in> set (drop (length (trace w)) (trace v')). chain_of ev \<noteq> i)"
    using nest_suspends_parent[OF assms] by blast
  have r: "\<forall>k ops v. ordered v \<and> length (saws v) + length ops < k \<and> (\<forall>x \<in> set ops. upward x) \<longrightarrow>
             (\<exists>v'. drive k ops v = Some v')"
    using drive_total by blast
  have o: "ordered w \<longrightarrow> ordered w1
             \<and> (\<forall>v. ordered v \<and> c < length (saws v) \<longrightarrow> ordered (nest_leave i c an v))"
    using e(3) ordered_alloc[of w "nested_saw (saws w ! i)"] ordered_nest_leave[OF _ _ ic]
    by (simp add: nested_saw_fresh)
  show ?thesis
    by (intro conjI) (rule a ic b n t l f d z q q' r o)+
qed

theorem nest_resumes_parent_at_end_witness:
  "nest_enter 0 [Fun 9] parent_world =
     Entered 1 (Applied 9) (walk 1 [] (Obj (attaches example_builder))) [] True nested_world
   \<and> saw_nest returning 0 [Fun 9] parent_world = (None, once_nested)
   \<and> saw_nest throwing 0 [Fun 9] parent_world = (Some (Error ''boom''), nested_world)
   \<and> on_end (saws once_nested ! 1) = [NextOf 0]
   \<and> on_end (saws nested_world ! 1) = []
   \<and> drive 2 [Push 1 [''add''] [Num 2]] nested_world =
       Some \<lparr>saws = [parent_saw, (nested_saw parent_saw)\<lparr>actions := [Call [''add''] [Num 2]]\<rparr>],
             ticks = [1], trace = []\<rparr>
   \<and> drive 2 [Tick]
         (nest_leave 0 1 True
           \<lparr>saws = [parent_saw, (nested_saw parent_saw)\<lparr>actions := [Call [''add''] [Num 2]]\<rparr>],
            ticks = [1], trace = []\<rparr>) =
       Some \<lparr>saws = [parent_saw, child_saw\<lparr>actions := [Call [''add''] [Num 2]], step := Some 1\<rparr>],
             ticks = [],
             trace = [Emitted 1 ''begin'',
                      Invoked 1 1 (Obj [(''add'', Fun 1), (''do'', Fun 2)]) [Num 2]]\<rparr>
   \<and> saws \<lparr>saws = [parent_saw, child_saw\<lparr>actions := [Call [''add''] [Num 2]], step := Some 1\<rparr>],
             ticks = [],
             trace = [Emitted 1 ''begin'',
                      Invoked 1 1 (Obj [(''add'', Fun 1), (''do'', Fun 2)]) [Num 2]]\<rparr> ! 0 =
       saws parent_world ! 0
   \<and> call 2 saw_next 1 once_nested =
       call 1 saw_next 0
         (emit (Emitted 1 ''end'') (put 1 (child_saw\<lparr>step := Some 1\<rparr>) once_nested))
   \<and> call 2 saw_next 1 once_nested =
       Some (None,
             \<lparr>saws = [parent_saw\<lparr>step := Some 2\<rparr>, child_saw\<lparr>step := Some 1\<rparr>], ticks = [1],
              trace = [Emitted 1 ''end'',
                       Invoked 0 1 (Obj [(''add'', Fun 1), (''do'', Fun 2)]) [Num 1]]\<rparr>)
   \<and> nest_enter 0 [Bool False, Fun 9] parent_world =
     Entered 1 (Applied 9) (walk 1 [] (Obj (attaches example_builder))) [] False nested_world
   \<and> saw_nest returning 0 [Bool False, Fun 9] parent_world = (None, nested_world)
   \<and> call 2 saw_next 1 nested_world =
       Some (None,
             \<lparr>saws = [parent_saw, (nested_saw parent_saw)\<lparr>step := Some 1\<rparr>], ticks = [1],
              trace = [Emitted 1 ''end'']\<rparr>)"
proof -
  let ?h = "Obj [(''add'', Fun 1), (''do'', Fun 2)] :: fid jsval"
  have e: "nest_enter 0 [Fun 9] parent_world =
     Entered 1 (Applied 9) (walk 1 [] (Obj (attaches example_builder))) [] True nested_world"
    by (simp add: nest_enter_def nest_args_def alloc_def saw_chain_def parent_world_def
        nested_world_def nested_saw_parent)
  have l: "0 < length (saws parent_world)" by (simp add: parent_world_def)
  note t = nest_resumes_parent_at_end[OF e l]
  note t6 = t[THEN conjunct2, THEN conjunct2, THEN conjunct2, THEN conjunct2, THEN conjunct2,
      THEN conjunct2]
  have cs: "child_saw = (nested_saw parent_saw)\<lparr>on_end := [NextOf 0]\<rparr>"
    by (simp add: child_saw_def nested_saw_parent)
  have lv: "nest_leave 0 1 True nested_world = once_nested"
    by (simp add: nest_leave_def put_def nested_world_def once_nested_def cs nested_saw_fresh)
  have rb: "returning (Applied 9) (walk 1 [] (Obj (attaches example_builder))) [] nested_world =
      (None, nested_world)"
    by (simp add: returning_def)
  have n1: "saw_nest returning 0 [Fun 9] parent_world = (None, once_nested)"
    using t6[THEN conjunct1, THEN spec, of returning, THEN spec, of nested_world, THEN mp, OF rb]
    by (simp only: lv)
  have tb: "throwing (Applied 9) (walk 1 [] (Obj (attaches example_builder))) [] nested_world =
      (Some (Error ''boom''), nested_world)"
    by (simp add: throwing_def)
  have n2: "saw_nest throwing 0 [Fun 9] parent_world = (Some (Error ''boom''), nested_world)"
    using t6[THEN conjunct2, THEN conjunct1, THEN spec, of throwing, THEN spec,
        of "Error ''boom''", THEN spec, of nested_world, THEN mp, OF tb] .
  have o1: "on_end (saws once_nested ! 1) = [NextOf 0]"
    by (simp add: once_nested_def child_saw_def)
  have o2: "on_end (saws nested_world ! 1) = []"
    by (simp add: nested_world_def nested_saw_parent)
  let ?b = "\<lparr>saws = [parent_saw, (nested_saw parent_saw)\<lparr>actions := [Call [''add''] [Num 2]]\<rparr>],
             ticks = [1], trace = []\<rparr>"
  let ?q = "\<lparr>saws = [parent_saw, child_saw\<lparr>actions := [Call [''add''] [Num 2]], step := Some 1\<rparr>],
             ticks = [],
             trace = [Emitted 1 ''begin'', Invoked 1 1 ?h [Num 2]]\<rparr>"
  have d1: "drive 2 [Push 1 [''add''] [Num 2]] nested_world = Some ?b"
    by (simp add: proxy_def put_def nested_world_def nested_saw_fresh)
  have d2: "drive 2 [Tick] (nest_leave 0 1 True ?b) = Some ?q"
    by (simp add: numeral_2_eq_2 nest_leave_def put_def emit_def tick_def child_saw_def
        nested_saw_parent saw_next_def saw_pop_def at_def example_builder_def bare_def)
  note t7 = t6[THEN conjunct2, THEN conjunct2, THEN conjunct2, THEN conjunct2]
  have hq: "(\<forall>q < length (saws parent_world). NextOf 0 \<notin> set (on_end (saws parent_world ! q)))
      \<and> 0 \<notin> set (ticks parent_world)
      \<and> drive 2 [Push 1 [''add''] [Num 2]] nested_world = Some ?b
      \<and> (\<forall>x \<in> set [Push 1 [''add''] [Num 2]]. \<not> aims 0 x)
      \<and> drive 2 [Tick] (nest_leave 0 1 True ?b) = Some ?q
      \<and> (\<forall>x \<in> set [Tick]. \<not> aims 0 x)
      \<and> (True \<longrightarrow> Emitted 1 ''end'' \<notin> set (drop (length (trace parent_world)) (trace ?q)))"
    using d1 d2 by (simp add: parent_world_def parent_saw_def)
  have pq: "saws ?q ! 0 = saws parent_world ! 0"
    using t7[THEN conjunct2, THEN conjunct2, THEN conjunct2, THEN conjunct1,
        THEN spec, of 2, THEN spec, of 2, THEN spec, of "[Push 1 [''add''] [Num 2]]",
        THEN spec, of "[Tick]", THEN spec, of ?b, THEN spec, of ?q, THEN mp, OF hq,
        THEN conjunct1] .
  have nx: "saw_next (saws once_nested ! 1) = (EmitEnd, child_saw\<lparr>step := Some 1\<rparr>)"
    by (simp add: once_nested_def child_saw_def saw_next_def saw_pop_def at_def)
  have h5: "1 < length (saws once_nested) \<and> saw_next (saws once_nested ! 1) = (EmitEnd, child_saw\<lparr>step := Some 1\<rparr>)
      \<and> on_end (child_saw\<lparr>step := Some 1\<rparr>) = [NextOf 0]"
    using nx by (simp add: once_nested_def child_saw_def)
  have "call (Suc 1) saw_next 1 once_nested =
       call 1 saw_next 0
         (emit (Emitted 1 ''end'') (put 1 (child_saw\<lparr>step := Some 1\<rparr>) once_nested))"
    using t7[THEN conjunct1, THEN spec, of 1, THEN spec, of saw_next, THEN spec, of once_nested,
        THEN spec, of "child_saw\<lparr>step := Some 1\<rparr>", THEN mp, OF h5] .
  then have c: "call 2 saw_next 1 once_nested =
       call 1 saw_next 0
         (emit (Emitted 1 ''end'') (put 1 (child_saw\<lparr>step := Some 1\<rparr>) once_nested))"
    by (simp only: numeral_2_eq_2 One_nat_def)
  have x: "call 1 saw_next 0
         (emit (Emitted 1 ''end'') (put 1 (child_saw\<lparr>step := Some 1\<rparr>) once_nested)) =
       Some (None,
             \<lparr>saws = [parent_saw\<lparr>step := Some 2\<rparr>, child_saw\<lparr>step := Some 1\<rparr>], ticks = [1],
              trace = [Emitted 1 ''end'', Invoked 0 1 ?h [Num 1]]\<rparr>)"
    by (simp add: emit_def put_def once_nested_def parent_saw_def saw_next_def saw_pop_def at_def
        example_builder_def bare_def)
  have c': "call 2 saw_next 1 once_nested =
       Some (None,
             \<lparr>saws = [parent_saw\<lparr>step := Some 2\<rparr>, child_saw\<lparr>step := Some 1\<rparr>], ticks = [1],
              trace = [Emitted 1 ''end'', Invoked 0 1 ?h [Num 1]]\<rparr>)"
    unfolding c by (rule x)
  have e': "nest_enter 0 [Bool False, Fun 9] parent_world =
     Entered 1 (Applied 9) (walk 1 [] (Obj (attaches example_builder))) [] False nested_world"
    by (simp add: nest_enter_def nest_args_def alloc_def saw_chain_def parent_world_def
        nested_world_def nested_saw_parent)
  note t' = nest_resumes_parent_at_end[OF e' l]
  note t6' = t'[THEN conjunct2, THEN conjunct2, THEN conjunct2, THEN conjunct2, THEN conjunct2,
      THEN conjunct2]
  have lv': "nest_leave 0 1 False nested_world = nested_world"
    using t6'[THEN conjunct2, THEN conjunct2, THEN conjunct2, THEN conjunct1, THEN spec, of nested_world]
    by simp
  have n3: "saw_nest returning 0 [Bool False, Fun 9] parent_world = (None, nested_world)"
    using t6'[THEN conjunct1, THEN spec, of returning, THEN spec, of nested_world, THEN mp, OF rb]
    by (simp only: lv')
  have nx': "saw_next (saws nested_world ! 1) = (EmitEnd, (nested_saw parent_saw)\<lparr>step := Some 1\<rparr>)"
    by (simp add: nested_world_def nested_saw_parent saw_next_def saw_pop_def at_def)
  have h6: "1 < length (saws nested_world)
      \<and> saw_next (saws nested_world ! 1) = (EmitEnd, (nested_saw parent_saw)\<lparr>step := Some 1\<rparr>)
      \<and> on_end ((nested_saw parent_saw)\<lparr>step := Some 1\<rparr>) = []"
    using nx' by (simp add: nested_world_def nested_saw_fresh)
  note t8' = t6'[THEN conjunct2, THEN conjunct2, THEN conjunct2, THEN conjunct2, THEN conjunct2]
  have "call (Suc 1) saw_next 1 nested_world =
      Some (None, emit (Emitted 1 ''end'') (put 1 ((nested_saw parent_saw)\<lparr>step := Some 1\<rparr>) nested_world))"
    using t8'[THEN conjunct1, THEN spec, of 1, THEN spec, of saw_next, THEN spec, of nested_world,
        THEN spec, of "(nested_saw parent_saw)\<lparr>step := Some 1\<rparr>", THEN mp, OF h6] .
  then have c3: "call 2 saw_next 1 nested_world =
       Some (None,
             \<lparr>saws = [parent_saw, (nested_saw parent_saw)\<lparr>step := Some 1\<rparr>], ticks = [1],
              trace = [Emitted 1 ''end'']\<rparr>)"
    by (simp add: numeral_2_eq_2 emit_def put_def nested_world_def del: call.simps)
  from e n1 n2 o1 o2 d1 d2 pq c c' e' n3 c3 show ?thesis by blast
qed

text \<open>
  After a run of the child alone, in which the child has not reached its end, the parent
  is where it was: the instance of the statement over runs for the store that one
  \<^verbatim>\<open>saw.nest\<close> leaves.
\<close>

lemma parent_waits_for_child:
  assumes "drive k ops once_nested = Some v'"
    and "\<forall>x \<in> set ops. \<not> aims 0 x"
    and "Emitted 1 ''end'' \<notin> set (trace v')"
  shows "saws v' ! 0 = parent_saw \<and> (\<forall>ev \<in> set (trace v'). chain_of ev \<noteq> 0)"
proof -
  have t0: "trace once_nested = []" and k0: "0 \<notin> set (ticks once_nested)"
    and s0: "saws once_nested ! 0 = parent_saw"
    by (simp_all add: once_nested_def)
  have hy: "\<forall>q < length (saws once_nested). NextOf 0 \<in> set (on_end (saws once_nested ! q)) \<longrightarrow>
      Emitted q ''end'' \<notin> set (trace v')"
  proof (intro allI impI)
    fix q assume "q < length (saws once_nested)"
      and h: "NextOf 0 \<in> set (on_end (saws once_nested ! q))"
    then have "q = 0 \<or> q = 1" by (auto simp: once_nested_def)
    then have "q = 1" using h by (auto simp: once_nested_def parent_saw_def)
    then show "Emitted q ''end'' \<notin> set (trace v')" using assms(3) by simp
  qed
  have l0: "0 < length (saws once_nested)" by (simp add: once_nested_def)
  have tr: "trace v' = trace once_nested @ trace v'" by (simp add: t0)
  from drive_quiet[OF assms(1) l0 assms(2) k0 tr hy] show ?thesis by (simp add: s0)
qed

text \<open>
  Claim C4 as it is written fails when the handler of the parent calls \<^verbatim>\<open>saw.nest\<close>
  twice. Both calls leave \<^verbatim>\<open>autonext\<close> at true, and both children hold
  the \<^verbatim>\<open>next\<close> of the parent. The first tick runs the first child, which has nothing to do
  and emits \<^verbatim>\<open>end\<close>; the parent goes on and its operation \<^verbatim>\<open>add\<close> is executed, while the
  second child has not started: its cursor is at 0, its tick is pending and it has not
  emitted \<^verbatim>\<open>end\<close>.
\<close>

theorem second_child_overtaken_counterexample:
  "saw_nest returning 0 [Fun 9] parent_world = (None, once_nested)
   \<and> saw_nest returning 0 [Fun 9] once_nested = (None, twice_nested)
   \<and> on_end (saws twice_nested ! 2) = [NextOf 0]
   \<and> tick 3 twice_nested = Some (None, overtaken)
   \<and> trace overtaken =
       [Emitted 1 ''begin'', Emitted 1 ''end'',
        Invoked 0 1 (Obj [(''add'', Fun 1), (''do'', Fun 2)]) [Num 1]]
   \<and> Emitted 2 ''end'' \<notin> set (trace overtaken)
   \<and> step (saws overtaken ! 2) = Some 0
   \<and> ticks overtaken = [2]"
proof -
  have cs: "child_saw = (nested_saw parent_saw)\<lparr>on_end := [NextOf 0]\<rparr>"
    by (simp add: child_saw_def nested_saw_parent)
  have ps: "builder parent_saw = example_builder" "step parent_saw = Some 1"
    by (simp_all add: parent_saw_def)
  have bb: "beyond example_builder = bare" by (simp add: example_builder_def)
  have a: "saw_nest returning 0 [Fun 9] parent_world = (None, once_nested)"
    by (simp add: saw_nest_def nest_enter_def nest_args_def alloc_def saw_chain_def returning_def
        nest_leave_def put_def parent_world_def once_nested_def cs nested_saw_fresh)
  have b: "saw_nest returning 0 [Fun 9] once_nested = (None, twice_nested)"
    by (simp add: saw_nest_def nest_enter_def nest_args_def alloc_def saw_chain_def returning_def
        nest_leave_def put_def once_nested_def twice_nested_def cs nested_saw_fresh)
  have c: "on_end (saws twice_nested ! 2) = [NextOf 0]"
    by (simp add: twice_nested_def child_saw_def)
  have d: "tick 3 twice_nested = Some (None, overtaken)"
    by (simp add: numeral_3_eq_3 tick_def emit_def put_def twice_nested_def overtaken_def
        child_saw_def parent_saw_def saw_next_def saw_pop_def at_def example_builder_def bare_def)
  have e: "trace overtaken =
       [Emitted 1 ''begin'', Emitted 1 ''end'',
        Invoked 0 1 (Obj [(''add'', Fun 1), (''do'', Fun 2)]) [Num 1]]"
    and f: "Emitted 2 ''end'' \<notin> set (trace overtaken)"
    and g: "step (saws overtaken ! 2) = Some 0"
    and h: "ticks overtaken = [2]"
    by (simp_all add: overtaken_def child_saw_def)
  from a b c d e f g h show ?thesis by blast
qed

text \<open>The same as a run: two calls of \<^verbatim>\<open>saw.nest\<close> and a tick.\<close>

lemma two_nests_as_run:
  "drive 3 [Enter 0 [Fun 9], Leave 0 1 True, Enter 0 [Fun 9], Leave 0 2 True, Tick] parent_world =
     Some overtaken"
proof -
  have cs: "child_saw = (nested_saw parent_saw)\<lparr>on_end := [NextOf 0]\<rparr>"
    by (simp add: child_saw_def nested_saw_parent)
  have a: "drive 3 [Enter 0 [Fun 9], Leave 0 1 True, Enter 0 [Fun 9], Leave 0 2 True] parent_world =
      Some twice_nested"
    by (simp add: nest_enter_def nest_args_def alloc_def saw_chain_def nest_leave_def put_def
        parent_world_def twice_nested_def cs nested_saw_fresh)
  have d: "tick 3 twice_nested = Some (None, overtaken)"
    by (simp add: numeral_3_eq_3 tick_def emit_def put_def twice_nested_def overtaken_def
        child_saw_def parent_saw_def saw_next_def saw_pop_def at_def example_builder_def bare_def)
  have "drive 3 ([Enter 0 [Fun 9], Leave 0 1 True, Enter 0 [Fun 9], Leave 0 2 True] @ [Tick])
      parent_world = Some overtaken"
    unfolding drive_append a using d by simp
  then show ?thesis by simp
qed

text \<open>
  And a callback that throws: \<^verbatim>\<open>saw.nest\<close> was called without \<^verbatim>\<open>false\<close>, the child still
  runs on its tick and emits \<^verbatim>\<open>end\<close>, and the parent is never resumed.
\<close>

lemma thrown_callback_strands_parent:
  "saw_nest throwing 0 [Fun 9] parent_world = (Some (Error ''boom''), nested_world)
   \<and> tick 2 nested_world =
       Some (None,
             \<lparr>saws = [parent_saw, (nested_saw parent_saw)\<lparr>step := Some 1\<rparr>], ticks = [],
              trace = [Emitted 1 ''begin'', Emitted 1 ''end'']\<rparr>)"
proof -
  have a: "saw_nest throwing 0 [Fun 9] parent_world = (Some (Error ''boom''), nested_world)"
    by (simp add: saw_nest_def nest_enter_def nest_args_def alloc_def saw_chain_def throwing_def
        parent_world_def nested_world_def)
  have b: "tick 2 nested_world =
       Some (None,
             \<lparr>saws = [parent_saw, (nested_saw parent_saw)\<lparr>step := Some 1\<rparr>], ticks = [],
              trace = [Emitted 1 ''begin'', Emitted 1 ''end'']\<rparr>)"
    by (simp add: numeral_2_eq_2 tick_def emit_def put_def nested_world_def nested_saw_parent
        saw_next_def saw_pop_def at_def)
  from a b show ?thesis by blast
qed


section \<open>The replay controller: \<^verbatim>\<open>saw.down\<close>\<close>

lemma indexOf_none: "x \<notin> set bs \<Longrightarrow> indexOf bs x = - 1"
  by (induction bs) auto

lemma indexOf_found:
  "k < length bs \<Longrightarrow> bs ! k = x \<Longrightarrow> (\<forall>j<k. bs ! j \<noteq> x) \<Longrightarrow> indexOf bs x = int k"
proof (induction bs arbitrary: k)
  case Nil
  then show ?case by simp
next
  case (Cons b bs)
  show ?case
  proof (cases k)
    case 0
    with Cons.prems show ?thesis by simp
  next
    case (Suc m)
    have "b \<noteq> x" using Cons.prems(3) Suc by auto
    moreover have "\<forall>j<m. bs ! j \<noteq> x"
    proof (intro allI impI)
      fix j assume "j < m"
      then have "Suc j < k" using Suc by simp
      with Cons.prems(3) have "(b # bs) ! Suc j \<noteq> x" by blast
      then show "bs ! j \<noteq> x" by simp
    qed
    then have "indexOf bs x = int m"
      using Cons.IH[of m] Cons.prems(1,2) Suc by simp
    ultimately show ?thesis using Suc by (simp add: Let_def)
  qed
qed

lemma slice_from: "0 \<le> c \<Longrightarrow> slice q c = drop (nat c) q"
  by (auto simp: slice_def Let_def min_def)

lemma seek_found:
  assumes "0 \<le> c" and "nat c \<le> k" and "k < length q" and "hit ps c (q ! k)"
    and "\<forall>j. nat c \<le> j \<and> j < k \<longrightarrow> \<not> hit ps c (q ! j)"
  shows "seek ps c q = int k"
proof -
  let ?bs = "map (hit ps c) (drop (nat c) q)"
  have "indexOf ?bs True = int (k - nat c)"
  proof (rule indexOf_found)
    show "k - nat c < length ?bs" using assms(2,3) by simp
    show "?bs ! (k - nat c) = True" using assms(2,3,4) by simp
    show "\<forall>j<k - nat c. ?bs ! j \<noteq> True"
    proof (intro allI impI)
      fix j assume "j < k - nat c"
      then have "nat c \<le> nat c + j \<and> nat c + j < k" by simp
      with assms(3,5) show "?bs ! j \<noteq> True" by simp
    qed
  qed
  moreover have "c + int (k - nat c) = int k" using assms(1,2) by simp
  ultimately show ?thesis
    using assms(1) by (simp add: seek_def slice_from Let_def)
qed

lemma seek_none:
  assumes "0 \<le> c" and "\<forall>j. nat c \<le> j \<and> j < length q \<longrightarrow> \<not> hit ps c (q ! j)"
  shows "seek ps c q = int (length q)"
proof -
  let ?bs = "map (hit ps c) (drop (nat c) q)"
  have "True \<notin> set ?bs"
  proof
    assume "True \<in> set ?bs"
    then obtain j where j: "j < length ?bs" "?bs ! j = True"
      by (metis in_set_conv_nth)
    then have "nat c \<le> nat c + j \<and> nat c + j < length q" by simp
    with assms(2) j show False by simp
  qed
  then have "indexOf ?bs True = - 1" by (rule indexOf_none)
  then show ?thesis
    using assms(1) by (simp add: seek_def slice_from Let_def)
qed

text \<open>
  Claim C3, as amended. Let the chain be recording, with a cursor \<open>c \<ge> 0\<close>. A record
  matches when its path, joined with \<^verbatim>\<open>/\<close>, is the joined name; a trap record registered
  at or before \<open>c\<close> never matches. \<^verbatim>\<open>saw.down\<close> moves the cursor to the first match at or
  after \<open>c\<close>, and to the end of the queue if there is none. Then, if the slot just
  before the new position of the cursor holds a trap record, the cursor goes back to
  the step at which the trap was registered and the callback of the trap is called; if
  not, \<^verbatim>\<open>saw.next\<close> is called at the new position: on a match it performs the matching
  record, at the end of the queue it signals the end.
\<close>

theorem down_lands_then_traps_or_resumes:
  assumes "step s = Some c" and "0 \<le> c" and "q = actions s" and "ps = join (as_path nm)"
  shows "(\<forall>k. nat c \<le> k \<and> k < length q \<and> hit ps c (q ! k)
              \<and> (\<forall>j. nat c \<le> j \<and> j < k \<longrightarrow> \<not> hit ps c (q ! j)) \<longrightarrow>
            seek ps c q = int k)
       \<and> ((\<forall>j. nat c \<le> j \<and> j < length q \<longrightarrow> \<not> hit ps c (q ! j)) \<longrightarrow>
            seek ps c q = int (length q))
       \<and> (\<forall>tp st tc. at q (seek ps c q - 1) = Some (Trap tp st tc) \<longrightarrow>
            saw_down nm s = (fire tc, s\<lparr>step := Some st\<rparr>))
       \<and> ((\<forall>tp st tc. at q (seek ps c q - 1) \<noteq> Some (Trap tp st tc)) \<longrightarrow>
            saw_down nm s = saw_next (s\<lparr>step := Some (seek ps c q)\<rparr>))
       \<and> (\<forall>k. k < length q \<longrightarrow>
            saw_next (s\<lparr>step := Some (int k)\<rparr>) =
              (perform (beyond (builder s)) (handlers s) (q ! k), s\<lparr>step := Some (int k + 1)\<rparr>))
       \<and> saw_next (s\<lparr>step := Some (int (length q))\<rparr>) =
            (EmitEnd, s\<lparr>step := Some (int (length q) + 1)\<rparr>)
       \<and> (\<forall>tp st tc. hit ps c (Trap tp st tc) \<longleftrightarrow> c < st \<and> join tp = ps)
       \<and> (\<forall>p as. hit ps c (Call p as) \<longleftrightarrow> join p = ps)"
proof -
  have a: "\<forall>k. nat c \<le> k \<and> k < length q \<and> hit ps c (q ! k)
              \<and> (\<forall>j. nat c \<le> j \<and> j < k \<longrightarrow> \<not> hit ps c (q ! j)) \<longrightarrow>
            seek ps c q = int k"
    using seek_found[OF assms(2)] by blast
  have b: "(\<forall>j. nat c \<le> j \<and> j < length q \<longrightarrow> \<not> hit ps c (q ! j)) \<longrightarrow>
            seek ps c q = int (length q)"
    using seek_none[OF assms(2)] by blast
  have t: "\<forall>tp st tc. at q (seek ps c q - 1) = Some (Trap tp st tc) \<longrightarrow>
            saw_down nm s = (fire tc, s\<lparr>step := Some st\<rparr>)"
    using assms(1) by (simp add: saw_down_def Let_def assms(3,4))
  have r: "(\<forall>tp st tc. at q (seek ps c q - 1) \<noteq> Some (Trap tp st tc)) \<longrightarrow>
            saw_down nm s = saw_next (s\<lparr>step := Some (seek ps c q)\<rparr>)"
    using assms(1)
    by (auto simp: saw_down_def Let_def assms(3,4) split: option.splits action.splits)
  have n: "\<forall>k. k < length q \<longrightarrow>
            saw_next (s\<lparr>step := Some (int k)\<rparr>) =
              (perform (beyond (builder s)) (handlers s) (q ! k), s\<lparr>step := Some (int k + 1)\<rparr>)"
    using assms(3) saw_next_recording[of "s\<lparr>step := Some (int k)\<rparr>" "int k" for k]
    by (simp add: at_def del: perform.simps)
  have e: "saw_next (s\<lparr>step := Some (int (length q))\<rparr>) =
            (EmitEnd, s\<lparr>step := Some (int (length q) + 1)\<rparr>)"
    using assms(3) saw_next_recording[of "s\<lparr>step := Some (int (length q))\<rparr>" "int (length q)"]
    by (simp add: at_def)
  have h: "\<forall>tp st tc. hit ps c (Trap tp st tc) \<longleftrightarrow> c < st \<and> join tp = ps"
    by auto
  have d: "\<forall>p as. hit ps c (Call p as) \<longleftrightarrow> join p = ps"
    by simp
  from a b t r n e h d show ?thesis by blast
qed

theorem down_lands_then_traps_or_resumes_witness:
  "saw_down (Single ''sub'') trapped_saw = (Fire 7, trapped_saw)
   \<and> saw_down (Single ''catch'') snare_saw = (Fire 7, snare_saw)
   \<and> saw_down (Single ''add'') (trapped_saw\<lparr>step := Some 0\<rparr>) =
        (Invoke 1 (Obj [(''add'', Fun 1)]) [Num 5], trapped_saw)
   \<and> saw_down (Single ''mul'') (trapped_saw\<lparr>step := Some 0\<rparr>) =
        (EmitEnd, trapped_saw\<lparr>step := Some 4\<rparr>)"
proof -
  let ?q = "[Call [''add''] [Num 5], Trap [''catch''] 1 (Fun 7), Call [''sub''] []]"
  have q: "?q = actions trapped_saw" and s1: "step trapped_saw = Some 1"
    and same: "trapped_saw\<lparr>step := Some 1\<rparr> = trapped_saw"
    by (simp_all add: trapped_saw_def)
  have z1: "(0::int) \<le> 1" and z0: "(0::int) \<le> 0" by simp_all
  \<comment> \<open>a match right behind a trap record\<close>
  have a: "nat 1 \<le> (2::nat) \<and> 2 < length ?q \<and> hit (join (as_path (Single ''sub''))) 1 (?q ! 2)
      \<and> (\<forall>j. nat 1 \<le> j \<and> j < 2 \<longrightarrow> \<not> hit (join (as_path (Single ''sub''))) 1 (?q ! j))"
  proof -
    have "\<not> hit (join (as_path (Single ''sub''))) 1 (?q ! j)" if "nat 1 \<le> j \<and> j < 2" for j
    proof -
      from that have "j = 1" by simp
      then show ?thesis by simp
    qed
    then show ?thesis by simp
  qed
  note t1 = down_lands_then_traps_or_resumes[OF s1 z1 q refl, of "Single ''sub''"]
  have k1: "seek (join (as_path (Single ''sub''))) 1 ?q = 2"
    using t1[THEN conjunct1, THEN spec, THEN mp, OF a] by simp
  have "at ?q (seek (join (as_path (Single ''sub''))) 1 ?q - 1) = Some (Trap [''catch''] 1 (Fun 7))"
    unfolding k1 by (simp add: at_def)
  from t1[THEN conjunct2, THEN conjunct2, THEN conjunct1, rule_format, OF this]
  have r1: "saw_down (Single ''sub'') trapped_saw = (Fire 7, trapped_saw)"
    by (simp add: same)
  \<comment> \<open>no match, and a trap record at the end of the queue\<close>
  let ?p = "[Call [''raise''] [], Trap [''catch''] 1 (Fun 7)]"
  have p: "?p = actions snare_saw" and u1: "step snare_saw = Some 1"
    and same': "snare_saw\<lparr>step := Some 1\<rparr> = snare_saw"
    by (simp_all add: snare_saw_def)
  have b: "\<forall>j. nat 1 \<le> j \<and> j < length ?p \<longrightarrow> \<not> hit (join (as_path (Single ''catch''))) 1 (?p ! j)"
  proof (intro allI impI)
    fix j assume "nat 1 \<le> j \<and> j < length ?p"
    then have "j = 1" by simp
    then show "\<not> hit (join (as_path (Single ''catch''))) 1 (?p ! j)" by simp
  qed
  note t2 = down_lands_then_traps_or_resumes[OF u1 z1 p refl, of "Single ''catch''"]
  have k2: "seek (join (as_path (Single ''catch''))) 1 ?p = 2"
    using t2[THEN conjunct2, THEN conjunct1, THEN mp, OF b] by simp
  have "at ?p (seek (join (as_path (Single ''catch''))) 1 ?p - 1) = Some (Trap [''catch''] 1 (Fun 7))"
    unfolding k2 by (simp add: at_def)
  from t2[THEN conjunct2, THEN conjunct2, THEN conjunct1, rule_format, OF this]
  have r2: "saw_down (Single ''catch'') snare_saw = (Fire 7, snare_saw)"
    by (simp add: same')
  \<comment> \<open>a plain match at the cursor\<close>
  let ?s = "trapped_saw\<lparr>step := Some 0\<rparr>"
  have s0: "step ?s = Some 0" and q0: "?q = actions ?s" and h0: "handlers ?s = Obj [(''add'', Fun 1)]"
    and up: "?s\<lparr>step := Some 1\<rparr> = trapped_saw"
    by (simp_all add: trapped_saw_def)
  have c: "nat 0 \<le> (0::nat) \<and> 0 < length ?q \<and> hit (join (as_path (Single ''add''))) 0 (?q ! 0)
      \<and> (\<forall>j. nat 0 \<le> j \<and> j < 0 \<longrightarrow> \<not> hit (join (as_path (Single ''add''))) 0 (?q ! j))"
    by simp
  note t3 = down_lands_then_traps_or_resumes[OF s0 z0 q0 refl, of "Single ''add''"]
  have k3: "seek (join (as_path (Single ''add''))) 0 ?q = 0"
    using t3[THEN conjunct1, THEN spec, THEN mp, OF c] by simp
  have "\<forall>tp st tc. at ?q (seek (join (as_path (Single ''add''))) 0 ?q - 1) \<noteq> Some (Trap tp st tc)"
    unfolding k3 by (simp add: at_def)
  from t3[THEN conjunct2, THEN conjunct2, THEN conjunct2, THEN conjunct1, THEN mp, OF this]
  have "saw_down (Single ''add'') ?s = saw_next (?s\<lparr>step := Some 0\<rparr>)"
    unfolding k3 .
  moreover have "saw_next (?s\<lparr>step := Some (int 0)\<rparr>) =
      (perform (beyond (builder ?s)) (handlers ?s) (?q ! 0), ?s\<lparr>step := Some (int 0 + 1)\<rparr>)"
    using t3[THEN conjunct2, THEN conjunct2, THEN conjunct2, THEN conjunct2, THEN conjunct1,
        rule_format, of 0] by simp
  ultimately have r3: "saw_down (Single ''add'') ?s =
      (Invoke 1 (Obj [(''add'', Fun 1)]) [Num 5], trapped_saw)"
    by (simp add: h0 up)
  \<comment> \<open>no match and no trap record at the end\<close>
  have d: "\<forall>j. nat 0 \<le> j \<and> j < length ?q \<longrightarrow> \<not> hit (join (as_path (Single ''mul''))) 0 (?q ! j)"
  proof (intro allI impI)
    fix j assume "nat 0 \<le> j \<and> j < length ?q"
    then have "j = 0 \<or> j = 1 \<or> j = 2" by auto
    then show "\<not> hit (join (as_path (Single ''mul''))) 0 (?q ! j)" by auto
  qed
  note t4 = down_lands_then_traps_or_resumes[OF s0 z0 q0 refl, of "Single ''mul''"]
  have k4: "seek (join (as_path (Single ''mul''))) 0 ?q = 3"
    using t4[THEN conjunct2, THEN conjunct1, THEN mp, OF d] by simp
  have "\<forall>tp st tc. at ?q (seek (join (as_path (Single ''mul''))) 0 ?q - 1) \<noteq> Some (Trap tp st tc)"
    unfolding k4 by (simp add: at_def)
  from t4[THEN conjunct2, THEN conjunct2, THEN conjunct2, THEN conjunct1, THEN mp, OF this]
  have "saw_down (Single ''mul'') ?s = saw_next (?s\<lparr>step := Some 3\<rparr>)"
    unfolding k4 .
  moreover have "saw_next (?s\<lparr>step := Some (int (length ?q))\<rparr>) =
      (EmitEnd, ?s\<lparr>step := Some (int (length ?q) + 1)\<rparr>)"
    using t4[THEN conjunct2, THEN conjunct2, THEN conjunct2, THEN conjunct2, THEN conjunct2,
        THEN conjunct1] .
  ultimately have r4: "saw_down (Single ''mul'') ?s = (EmitEnd, trapped_saw\<lparr>step := Some 4\<rparr>)"
    by simp
  from r1 r2 r3 r4 show ?thesis by blast
qed

text \<open>
  Claim C3 as it is written fails when the cursor is below 0, and \<^verbatim>\<open>saw.jump\<close> accepts
  any number. \<^verbatim>\<open>jump(-2)\<close> on \<open>plain_saw\<close> signals the end and leaves the cursor at \<open>-1\<close>.
  Searching forward from there, the first record that matches \<^verbatim>\<open>sub\<close> is the one at
  position 2, and \<^verbatim>\<open>saw.next\<close> with the cursor on it would call the handler. But
  \<^verbatim>\<open>slice\<close> counts a negative start from the end of the array, \<^verbatim>\<open>down('sub')\<close> adds the
  offset of the match in that slice, 0, to the cursor, and the \<^verbatim>\<open>next\<close> it calls signals
  the end.
\<close>

theorem down_from_negative_cursor_counterexample:
  "saw_jump (- 2) plain_saw = (EmitEnd, plain_saw\<lparr>step := Some (- 1)\<rparr>)
   \<and> \<not> hit (join (as_path (Single ''sub''))) (- 1) (actions plain_saw ! 0)
   \<and> \<not> hit (join (as_path (Single ''sub''))) (- 1) (actions plain_saw ! 1)
   \<and> hit (join (as_path (Single ''sub''))) (- 1) (actions plain_saw ! 2)
   \<and> saw_next (plain_saw\<lparr>step := Some 2\<rparr>) =
       (Invoke 2 (handlers plain_saw) [Num 3], plain_saw)
   \<and> saw_down (Single ''sub'') (plain_saw\<lparr>step := Some (- 1)\<rparr>) =
       (EmitEnd, plain_saw\<lparr>step := Some 0\<rparr>)"
  by (simp add: plain_saw_def saw_jump_def saw_next_def saw_pop_def saw_down_def seek_def
      slice_def at_def Let_def)

end
